theory Spec2Isabelle
  imports Complex_Main "HOL-Library.Word" "HOL-Library.Signed_Division"
begin

section \<open>Basic types (types.hpp)\<close>

text \<open>
  \<^verbatim>\<open>OrderId = uint64_t\<close> is a 64-bit word. \<^verbatim>\<open>Quantity = int64_t\<close> is modelled by
  \<open>int\<close>. The arithmetic on a single order is exact while its quantity and filled count
  are 64-bit values with \<open>0 \<le> filled \<le> quantity\<close>. The cached total of a price level
  is a sum over many such orders and does leave the 64-bit range; its additions and
  subtractions are written with the two's complement wrap-around \<open>int64\<close>, which is what
  the compiled code computes (the C++ standard leaves signed overflow undefined).
  \<^verbatim>\<open>Price = double\<close> is modelled by \<open>real\<close>: the
  order book only compares prices and uses them as map keys, which is exact on finite
  doubles; NaN and the infinities are outside the model. \<^verbatim>\<open>Timestamp\<close> is a tick count of
  the steady clock, one tick a nanosecond.
\<close>

type_synonym OrderId = "64 word"
type_synonym Price = real
type_synonym Quantity = int
type_synonym Symbol = string
type_synonym Timestamp = int

text \<open>The value of an \<^verbatim>\<open>int64_t\<close> after an operation whose exact result is \<open>x\<close>.\<close>

definition int64 :: "int \<Rightarrow> int" where
  "int64 x = (x + 9223372036854775808) mod 18446744073709551616 - 9223372036854775808"

datatype Side = Buy | Sell

datatype OrderType = Limit | Market | IOC | FOK

datatype OrderStatus = New | PartiallyFilled | Filled | Cancelled | Rejected

section \<open>Orders and fills (order.hpp)\<close>

record Order =
  oid :: OrderId
  symbol :: Symbol
  side :: Side
  otype :: OrderType
  price :: Price
  quantity :: Quantity
  filled_qty :: Quantity
  status :: OrderStatus
  timestamp :: Timestamp

text \<open>The parameterized constructor; the clock reading is the argument \<open>now\<close>.\<close>

definition mk_order ::
  "OrderId \<Rightarrow> Symbol \<Rightarrow> Side \<Rightarrow> OrderType \<Rightarrow> Price \<Rightarrow> Quantity \<Rightarrow> Timestamp \<Rightarrow> Order" where
  "mk_order i smb s t p q now =
     \<lparr>oid = i, symbol = smb, side = s, otype = t, price = p, quantity = q,
      filled_qty = 0, status = New, timestamp = now\<rparr>"

definition remaining_qty :: "Order \<Rightarrow> Quantity" where
  "remaining_qty order = quantity order - filled_qty order"

definition is_filled :: "Order \<Rightarrow> bool" where
  "is_filled order = (filled_qty order \<ge> quantity order)"

definition is_active :: "Order \<Rightarrow> bool" where
  "is_active order = (status order = New \<or> status order = PartiallyFilled)"

definition apply_fill :: "Order \<Rightarrow> Quantity \<Rightarrow> Order" where
  "apply_fill order fill_qty =
     (let order = order\<lparr>filled_qty := filled_qty order + fill_qty\<rparr>
      in if filled_qty order \<ge> quantity order then order\<lparr>status := Filled\<rparr>
         else if filled_qty order > 0 then order\<lparr>status := PartiallyFilled\<rparr>
         else order)"

definition cancel :: "Order \<Rightarrow> Order" where
  "cancel order = order\<lparr>status := Cancelled\<rparr>"

definition reject :: "Order \<Rightarrow> Order" where
  "reject order = order\<lparr>status := Rejected\<rparr>"

text \<open>
  A fill. The constructor stamps it with its own clock reading, which nothing in the
  engine reads back; the field is left out.
\<close>

record Fill =
  fill_order_id :: OrderId
  counter_order_id :: OrderId
  fill_symbol :: Symbol
  fill_side :: Side
  fill_price :: Price
  fill_quantity :: Quantity

definition mk_fill :: "OrderId \<Rightarrow> OrderId \<Rightarrow> Symbol \<Rightarrow> Side \<Rightarrow> Price \<Rightarrow> Quantity \<Rightarrow> Fill" where
  "mk_fill i c smb s p q =
     \<lparr>fill_order_id = i, counter_order_id = c, fill_symbol = smb, fill_side = s,
      fill_price = p, fill_quantity = q\<rparr>"

section \<open>The order book (order_book.hpp, order_book.cpp)\<close>

record PriceLevel =
  level_price :: Price
  total_quantity :: Quantity
  orders :: "Order list"

text \<open>The constructor \<^verbatim>\<open>PriceLevel(Price p = 0.0)\<close>.\<close>

definition new_level :: "Price \<Rightarrow> PriceLevel" where
  "new_level p = \<lparr>level_price = p, total_quantity = 0, orders = []\<rparr>"

text \<open>
  A \<^verbatim>\<open>std::map<Price, PriceLevel, Compare>\<close> is the list of its entries in iteration
  order: \<^verbatim>\<open>begin()\<close> is the head. The comparator is \<open>(<)\<close> for the asks and \<open>(>)\<close> for
  the bids.
\<close>

type_synonym LevelMap = "(Price \<times> PriceLevel) list"

fun level_find :: "Price \<Rightarrow> LevelMap \<Rightarrow> PriceLevel option" where
  "level_find p [] = None"
| "level_find p ((k, l) # rest) = (if k = p then Some l else level_find p rest)"

fun level_erase :: "Price \<Rightarrow> LevelMap \<Rightarrow> LevelMap" where
  "level_erase p [] = []"
| "level_erase p ((k, l) # rest) = (if k = p then rest else (k, l) # level_erase p rest)"

text \<open>Storing a level under a key: overwrite the entry, or insert it at its sorted place.\<close>

fun level_put :: "(Price \<Rightarrow> Price \<Rightarrow> bool) \<Rightarrow> Price \<Rightarrow> PriceLevel \<Rightarrow> LevelMap \<Rightarrow> LevelMap" where
  "level_put cmp p v [] = [(p, v)]"
| "level_put cmp p v ((k, l) # rest) =
     (if k = p then (p, v) # rest
      else if cmp p k then (p, v) # (k, l) # rest
      else (k, l) # level_put cmp p v rest)"

text \<open>Writing a level back through the iterator or reference that a lookup of the key gave.\<close>

fun level_store :: "Price \<Rightarrow> PriceLevel \<Rightarrow> LevelMap \<Rightarrow> LevelMap" where
  "level_store p v [] = []"
| "level_store p v ((k, l) # rest) =
     (if k = p then (k, v) # rest else (k, l) # level_store p v rest)"

text \<open>\<^verbatim>\<open>operator[]\<close>: the level under the key, default-constructed when absent.\<close>

definition level_at :: "Price \<Rightarrow> LevelMap \<Rightarrow> PriceLevel" where
  "level_at p m = (case level_find p m of Some l \<Rightarrow> l | None \<Rightarrow> new_level 0)"

text \<open>
  An \<^verbatim>\<open>OrderLocation\<close> holds a side, a price and a list iterator. List nodes never move,
  and an id is in the index for at most one node, so the iterator is modelled by the id
  it is stored under: it denotes the order with that id in the level at that side and
  price (\<open>find_order\<close>), and erasing it removes that order (\<open>erase_order\<close>).
\<close>

record OrderLocation =
  loc_side :: Side
  loc_price :: Price

fun find_order :: "OrderId \<Rightarrow> Order list \<Rightarrow> Order option" where
  "find_order i [] = None"
| "find_order i (x # xs) = (if oid x = i then Some x else find_order i xs)"

fun erase_order :: "OrderId \<Rightarrow> Order list \<Rightarrow> Order list" where
  "erase_order i [] = []"
| "erase_order i (x # xs) = (if oid x = i then xs else x # erase_order i xs)"

fun set_order_quantity :: "OrderId \<Rightarrow> Quantity \<Rightarrow> Order list \<Rightarrow> Order list" where
  "set_order_quantity i q [] = []"
| "set_order_quantity i q (x # xs) =
     (if oid x = i then x\<lparr>quantity := q\<rparr> # xs else x # set_order_quantity i q xs)"

text \<open>
  \<^verbatim>\<open>bid_orders_\<close> and \<^verbatim>\<open>ask_orders_\<close> map an id to a pointer to the same list node; only
  their key sets are observable (the order counts), so they are sets of ids.
\<close>

record OrderBook =
  book_symbol :: Symbol
  bid_levels :: LevelMap
  ask_levels :: LevelMap
  order_lookup :: "OrderId \<rightharpoonup> OrderLocation"
  bid_orders :: "OrderId set"
  ask_orders :: "OrderId set"

definition new_book :: "Symbol \<Rightarrow> OrderBook" where
  "new_book smb =
     \<lparr>book_symbol = smb, bid_levels = [], ask_levels = [], order_lookup = Map.empty,
      bid_orders = {}, ask_orders = {}\<rparr>"

definition isValidOrder :: "Order \<Rightarrow> bool" where
  "isValidOrder order = (remaining_qty order > 0 \<and> price order \<ge> 0)"

text \<open>The body of one branch of \<^verbatim>\<open>addOrder\<close>: the level after the push.\<close>

definition push_order :: "Order \<Rightarrow> PriceLevel \<Rightarrow> PriceLevel" where
  "push_order order level =
     (let level = (if orders level = [] then level\<lparr>level_price := price order\<rparr> else level);
          level = level\<lparr>orders := orders level @ [order]\<rparr>
      in level\<lparr>total_quantity := int64 (total_quantity level + remaining_qty order)\<rparr>)"

definition addOrder :: "OrderBook \<Rightarrow> Order \<Rightarrow> OrderBook \<times> bool" where
  "addOrder b order =
     (if \<not> isValidOrder order then (b, False)
      else if order_lookup b (oid order) \<noteq> None then (b, False)
      else if side order = Buy then
        (b\<lparr>bid_levels := level_put (>) (price order)
                           (push_order order (level_at (price order) (bid_levels b)))
                           (bid_levels b),
           order_lookup := (order_lookup b)
                             (oid order \<mapsto> \<lparr>loc_side = Buy, loc_price = price order\<rparr>),
           bid_orders := insert (oid order) (bid_orders b)\<rparr>, True)
      else
        (b\<lparr>ask_levels := level_put (<) (price order)
                           (push_order order (level_at (price order) (ask_levels b)))
                           (ask_levels b),
           order_lookup := (order_lookup b)
                             (oid order \<mapsto> \<lparr>loc_side = Sell, loc_price = price order\<rparr>),
           ask_orders := insert (oid order) (ask_orders b)\<rparr>, True))"

text \<open>
  One side of \<^verbatim>\<open>cancelOrder\<close>: when the level is found, its total loses the order's
  remaining quantity, the order is erased, and the level is erased when that empties it.
  A locator that names no order of its level does not occur in a book built by the
  operations (lemma \<open>reachable_resolves\<close> below); the model leaves the level alone there.
\<close>

definition cancel_in :: "OrderId \<Rightarrow> Price \<Rightarrow> LevelMap \<Rightarrow> LevelMap" where
  "cancel_in i p levels =
     (case level_find p levels of
        None \<Rightarrow> levels
      | Some level \<Rightarrow>
          (case find_order i (orders level) of
             None \<Rightarrow> levels
           | Some order \<Rightarrow>
               let level = level\<lparr>total_quantity :=
                                   int64 (total_quantity level - remaining_qty order)\<rparr>;
                   level = level\<lparr>orders := erase_order i (orders level)\<rparr>
               in if orders level = [] then level_erase p levels
                  else level_store p level levels))"

definition cancelOrder :: "OrderBook \<Rightarrow> OrderId \<Rightarrow> OrderBook \<times> bool" where
  "cancelOrder b order_id =
     (case order_lookup b order_id of
        None \<Rightarrow> (b, False)
      | Some loc \<Rightarrow>
          let b = (if loc_side loc = Buy
                   then b\<lparr>bid_levels := cancel_in order_id (loc_price loc) (bid_levels b),
                          bid_orders := bid_orders b - {order_id}\<rparr>
                   else b\<lparr>ask_levels := cancel_in order_id (loc_price loc) (ask_levels b),
                          ask_orders := ask_orders b - {order_id}\<rparr>)
          in (b\<lparr>order_lookup := (order_lookup b)(order_id := None)\<rparr>, True))"

text \<open>\<^verbatim>\<open>*loc.iter\<close>: the order a locator points at.\<close>

definition side_levels :: "OrderBook \<Rightarrow> Side \<Rightarrow> LevelMap" where
  "side_levels b s = (if s = Buy then bid_levels b else ask_levels b)"

definition deref :: "OrderBook \<Rightarrow> OrderLocation \<Rightarrow> OrderId \<Rightarrow> Order option" where
  "deref b loc i =
     (case level_find (loc_price loc) (side_levels b (loc_side loc)) of
        None \<Rightarrow> None
      | Some level \<Rightarrow> find_order i (orders level))"

text \<open>
  The in-place branch of \<^verbatim>\<open>modifyOrder\<close> on one side: the order's quantity is set
  through the iterator and the total of the level under the locator's price takes the
  difference. The branch is entered with the level present.
\<close>

definition requantify_in :: "OrderId \<Rightarrow> Price \<Rightarrow> Quantity \<Rightarrow> Quantity \<Rightarrow> LevelMap \<Rightarrow> LevelMap" where
  "requantify_in i p new_quantity diff levels =
     (case level_find p levels of
        None \<Rightarrow> levels
      | Some level \<Rightarrow>
          let level = level\<lparr>orders := set_order_quantity i new_quantity (orders level)\<rparr>;
              level = level\<lparr>total_quantity := int64 (total_quantity level + diff)\<rparr>
          in level_store p level levels)"

text \<open>
  \<^verbatim>\<open>modifyOrder\<close>; \<open>now\<close> is the clock reading of the re-queue branch. As in
  \<open>cancel_in\<close>, a locator that names no order is outside the reachable books; the model
  answers \<open>False\<close> there and changes nothing.
\<close>

definition modifyOrder ::
  "OrderBook \<Rightarrow> OrderId \<Rightarrow> Price \<Rightarrow> Quantity \<Rightarrow> Timestamp \<Rightarrow> OrderBook \<times> bool" where
  "modifyOrder b order_id new_price new_quantity now =
     (case order_lookup b order_id of
        None \<Rightarrow> (b, False)
      | Some loc \<Rightarrow>
          (case deref b loc order_id of
             None \<Rightarrow> (b, False)
           | Some old_order \<Rightarrow>
               if new_price > 0 \<and> new_price \<noteq> loc_price loc then
                 let b = fst (cancelOrder b order_id);
                     old_order = old_order\<lparr>price := new_price\<rparr>;
                     old_order = (if new_quantity > 0
                                  then old_order\<lparr>quantity := new_quantity\<rparr> else old_order);
                     old_order = old_order\<lparr>timestamp := now\<rparr>
                 in addOrder b old_order
               else if new_quantity > 0 \<and> new_quantity \<noteq> quantity old_order then
                 let diff = new_quantity - quantity old_order
                 in if loc_side loc = Buy
                    then (b\<lparr>bid_levels := requantify_in order_id (loc_price loc)
                                             new_quantity diff (bid_levels b)\<rparr>, True)
                    else (b\<lparr>ask_levels := requantify_in order_id (loc_price loc)
                                             new_quantity diff (ask_levels b)\<rparr>, True)
               else (b, True)))"


subsection \<open>The match primitive\<close>

text \<open>
  The state of the inner loop of \<^verbatim>\<open>executeFill\<close>, over the FIFO of one level: the
  aggressor's remaining quantity, the level, the fills emitted so far, the id index and
  the id set of the passive side.
\<close>

type_synonym MatchState =
  "Quantity \<times> PriceLevel \<times> Fill list \<times> (OrderId \<rightharpoonup> OrderLocation) \<times> OrderId set"

text \<open>The body of the inner loop: one fill against the head order of the level.\<close>

definition fill_head :: "OrderId \<Rightarrow> Symbol \<Rightarrow> Side \<Rightarrow> MatchState \<Rightarrow> MatchState" where
  "fill_head aggressor_id smb aggressor_side st =
     (case st of (remaining, level, fills, lookup, side_orders) \<Rightarrow>
        let passive_order = hd (orders level);
            fill_qty = min remaining (remaining_qty passive_order);
            fills = fills @ [mk_fill aggressor_id (oid passive_order) smb aggressor_side
                               (level_price level) fill_qty];
            passive_order = apply_fill passive_order fill_qty;
            level = level\<lparr>orders := passive_order # tl (orders level),
                          total_quantity := int64 (total_quantity level - fill_qty)\<rparr>;
            remaining = remaining - fill_qty
        in if is_filled passive_order
           then (remaining, level\<lparr>orders := tl (orders level)\<rparr>, fills,
                 lookup(oid passive_order := None), side_orders - {oid passive_order})
           else (remaining, level, fills, lookup, side_orders))"

text \<open>The inner loop: \<^verbatim>\<open>while (remaining > 0 && !level.orders.empty())\<close>.\<close>

function match_level :: "OrderId \<Rightarrow> Symbol \<Rightarrow> Side \<Rightarrow> MatchState \<Rightarrow> MatchState" where
  "match_level aggressor_id smb aggressor_side (remaining, level, rest) =
     (if remaining > 0 \<and> orders level \<noteq> []
      then match_level aggressor_id smb aggressor_side
             (fill_head aggressor_id smb aggressor_side (remaining, level, rest))
      else (remaining, level, rest))"
  by pat_completeness auto
termination
proof (relation "measure (\<lambda>(aggressor_id, smb, aggressor_side, remaining, level, rest).
                         2 * length (orders level) + (if remaining > 0 then 1 else 0))",
       goal_cases)
  case 1
  show ?case by simp
next
  case (2 aggressor_id smb aggressor_side remaining level rest)
  then obtain x xs where "orders level = x # xs" "remaining > 0"
    by (cases "orders level") auto
  then show ?case
    by (cases rest)
       (auto simp: fill_head_def Let_def is_filled_def apply_fill_def remaining_qty_def min_def
             split: prod.splits if_splits)
qed

declare match_level.simps [simp del]

text \<open>The price gate of one level: \<^verbatim>\<open>limit_price > 0 && level.price > limit_price\<close> for a
  buying aggressor, \<^verbatim>\<open><\<close> for a selling one.\<close>

definition gate_stops :: "Side \<Rightarrow> Price \<Rightarrow> PriceLevel \<Rightarrow> bool" where
  "gate_stops aggressor_side limit_price level =
     (limit_price > 0 \<and>
      (if aggressor_side = Buy then level_price level > limit_price
       else level_price level < limit_price))"

text \<open>
  The state of the outer loop: the remaining quantity, the levels of the passive side,
  the fills, the id index and the id set of the passive side.
\<close>

type_synonym BookMatchState =
  "Quantity \<times> LevelMap \<times> Fill list \<times> (OrderId \<rightharpoonup> OrderLocation) \<times> OrderId set"

text \<open>
  The body of the outer loop after the gate: the inner loop on the level at \<^verbatim>\<open>begin()\<close>,
  which is written back in place, or erased through its iterator when it is empty.
\<close>

definition consume_level :: "OrderId \<Rightarrow> Symbol \<Rightarrow> Side \<Rightarrow> BookMatchState \<Rightarrow> BookMatchState" where
  "consume_level aggressor_id smb aggressor_side st =
     (case st of (remaining, levels, fills, lookup, side_orders) \<Rightarrow>
        (case match_level aggressor_id smb aggressor_side
                (remaining, snd (hd levels), fills, lookup, side_orders) of
           (remaining, level, fills, lookup, side_orders) \<Rightarrow>
             (remaining,
              (if orders level = [] then tl levels else (fst (hd levels), level) # tl levels),
              fills, lookup, side_orders)))"

lemma match_level_stops:
  "match_level a s d (q, lv, rest) = (r, l, rest') \<Longrightarrow> r \<le> 0 \<or> orders l = []"
proof (induction a s d "(q, lv, rest)" arbitrary: q lv rest rule: match_level.induct)
  case (1 a s d q lv rest)
  show ?case
  proof (cases "q > 0 \<and> orders lv \<noteq> []")
    case True
    obtain q' lv' rest'' where step: "fill_head a s d (q, lv, rest) = (q', lv', rest'')"
      by (cases "fill_head a s d (q, lv, rest)") auto
    with True "1.prems" have "match_level a s d (q', lv', rest'') = (r, l, rest')"
      by (simp add: match_level.simps)
    with "1.hyps" [OF True step] show ?thesis by blast
  next
    case False
    with "1.prems" show ?thesis by (auto simp: match_level.simps)
  qed
qed

text \<open>
  The outer loop: \<^verbatim>\<open>while (remaining > 0 && !levels.empty())\<close>, left by \<^verbatim>\<open>break\<close> when
  the gate stops at the best level.
\<close>

function match_levels ::
  "OrderId \<Rightarrow> Symbol \<Rightarrow> Side \<Rightarrow> Price \<Rightarrow> BookMatchState \<Rightarrow> BookMatchState" where
  "match_levels aggressor_id smb aggressor_side limit_price (remaining, levels, rest) =
     (if remaining > 0 \<and> levels \<noteq> [] then
        if gate_stops aggressor_side limit_price (snd (hd levels))
        then (remaining, levels, rest)
        else match_levels aggressor_id smb aggressor_side limit_price
               (consume_level aggressor_id smb aggressor_side (remaining, levels, rest))
      else (remaining, levels, rest))"
  by pat_completeness auto
termination
proof (relation "measure (\<lambda>(aggressor_id, smb, aggressor_side, limit_price, remaining, levels,
                         rest). 2 * length levels + (if remaining > 0 then 1 else 0))",
       goal_cases)
  case 1
  show ?case by simp
next
  case (2 aggressor_id smb aggressor_side limit_price remaining levels rest)
  then obtain kl ls where levels: "levels = kl # ls" and pos: "remaining > 0"
    by (cases levels) auto
  obtain fills lookup side_orders where rest: "rest = (fills, lookup, side_orders)"
    by (cases rest) auto
  obtain r l rest' where inner:
    "match_level aggressor_id smb aggressor_side (remaining, snd kl, rest) = (r, l, rest')"
    by (cases "match_level aggressor_id smb aggressor_side (remaining, snd kl, rest)") auto
  from match_level_stops [OF inner] have "r \<le> 0 \<or> orders l = []" .
  with levels pos rest inner show ?case
    by (cases rest') (auto simp: consume_level_def)
qed

declare match_levels.simps [simp del]

definition executeFill ::
  "OrderBook \<Rightarrow> Side \<Rightarrow> Quantity \<Rightarrow> Price \<Rightarrow> OrderId \<Rightarrow> OrderBook \<times> Fill list" where
  "executeFill b aggressor_side qty limit_price aggressor_id =
     (if aggressor_side = Buy then
        (case match_levels aggressor_id (book_symbol b) aggressor_side limit_price
                (qty, ask_levels b, [], order_lookup b, ask_orders b) of
           (remaining, levels, fills, lookup, side_orders) \<Rightarrow>
             (b\<lparr>ask_levels := levels, order_lookup := lookup, ask_orders := side_orders\<rparr>, fills))
      else
        (case match_levels aggressor_id (book_symbol b) aggressor_side limit_price
                (qty, bid_levels b, [], order_lookup b, bid_orders b) of
           (remaining, levels, fills, lookup, side_orders) \<Rightarrow>
             (b\<lparr>bid_levels := levels, order_lookup := lookup, bid_orders := side_orders\<rparr>, fills)))"


section \<open>The risk manager (risk_manager.hpp, risk_manager.cpp)\<close>

text \<open>
  A check result carries the verdict and a reason. The reason strings of the source are
  fixed texts around the numbers involved; the model keeps which text and which numbers.
\<close>

datatype Reason =
    NoReason
  | PositionLimitExceeded Quantity Quantity
  | GlobalPositionLimitExceeded
  | OrderSizeLimitExceeded Quantity Quantity
  | NotionalLimitExceeded real real
  | GlobalNotionalLimitExceeded
  | OrderRateLimitExceeded

record RiskCheckResult =
  passed :: bool
  reason :: Reason

definition check_ok :: RiskCheckResult where
  "check_ok = \<lparr>passed = True, reason = NoReason\<rparr>"

definition check_failed :: "Reason \<Rightarrow> RiskCheckResult" where
  "check_failed r = \<lparr>passed = False, reason = r\<rparr>"

text \<open>
  The limit tables are only looked up, so they are maps. The position and exposure tables
  are also iterated by the global checks, so they are the lists of their entries, one per
  symbol, in iteration order. The rate limit and its counter are \<^verbatim>\<open>size_t\<close>; the counter
  stays below the limit, so they are natural numbers.
\<close>

record RiskManager =
  position_limits :: "Symbol \<rightharpoonup> Quantity"
  order_size_limits :: "Symbol \<rightharpoonup> Quantity"
  notional_limits :: "Symbol \<rightharpoonup> real"
  positions :: "(Symbol \<times> Quantity) list"
  average_prices :: "(Symbol \<times> real) list"
  notional_exposures :: "(Symbol \<times> real) list"
  global_position_limit :: Quantity
  global_notional_limit :: real
  order_rate_limit :: nat
  orders_this_second :: nat
  rate_window_start :: Timestamp

definition DEFAULT_POSITION_LIMIT :: Quantity where
  "DEFAULT_POSITION_LIMIT = 100000"

definition DEFAULT_ORDER_SIZE_LIMIT :: Quantity where
  "DEFAULT_ORDER_SIZE_LIMIT = 10000"

definition DEFAULT_NOTIONAL_LIMIT :: real where
  "DEFAULT_NOTIONAL_LIMIT = 10000000"

definition new_risk_manager :: "Timestamp \<Rightarrow> RiskManager" where
  "new_risk_manager now =
     \<lparr>position_limits = Map.empty, order_size_limits = Map.empty, notional_limits = Map.empty,
      positions = [], average_prices = [], notional_exposures = [],
      global_position_limit = 0, global_notional_limit = 0, order_rate_limit = 0,
      orders_this_second = 0, rate_window_start = now\<rparr>"

text \<open>\<^verbatim>\<open>table[key] = f(table[key])\<close> on an unordered map whose absent entries start at \<open>d\<close>.\<close>

fun entry_update :: "'k \<Rightarrow> ('v \<Rightarrow> 'v) \<Rightarrow> 'v \<Rightarrow> ('k \<times> 'v) list \<Rightarrow> ('k \<times> 'v) list" where
  "entry_update k f d [] = [(k, f d)]"
| "entry_update k f d ((k', v) # rest) =
     (if k' = k then (k', f v) # rest else (k', v) # entry_update k f d rest)"

fun entry_find :: "'k \<Rightarrow> ('k \<times> 'v) list \<Rightarrow> 'v option" where
  "entry_find k [] = None"
| "entry_find k ((k', v) # rest) = (if k' = k then Some v else entry_find k rest)"

definition getPositionLimit :: "RiskManager \<Rightarrow> Symbol \<Rightarrow> Quantity" where
  "getPositionLimit rm smb =
     (case position_limits rm smb of Some l \<Rightarrow> l | None \<Rightarrow> DEFAULT_POSITION_LIMIT)"

definition getOrderSizeLimit :: "RiskManager \<Rightarrow> Symbol \<Rightarrow> Quantity" where
  "getOrderSizeLimit rm smb =
     (case order_size_limits rm smb of Some l \<Rightarrow> l | None \<Rightarrow> DEFAULT_ORDER_SIZE_LIMIT)"

definition getNotionalLimit :: "RiskManager \<Rightarrow> Symbol \<Rightarrow> real" where
  "getNotionalLimit rm smb =
     (case notional_limits rm smb of Some l \<Rightarrow> l | None \<Rightarrow> DEFAULT_NOTIONAL_LIMIT)"

definition getPosition :: "RiskManager \<Rightarrow> Symbol \<Rightarrow> Quantity" where
  "getPosition rm smb = (case entry_find smb (positions rm) of Some v \<Rightarrow> v | None \<Rightarrow> 0)"

definition getNotionalExposure :: "RiskManager \<Rightarrow> Symbol \<Rightarrow> real" where
  "getNotionalExposure rm smb =
     (case entry_find smb (notional_exposures rm) of Some v \<Rightarrow> v | None \<Rightarrow> 0)"

text \<open>The loop of \<^verbatim>\<open>getTotalNotionalExposure\<close>, from the running total.\<close>

fun total_exposure_loop :: "(Symbol \<times> real) list \<Rightarrow> real \<Rightarrow> real" where
  "total_exposure_loop [] acc = acc"
| "total_exposure_loop ((smb, exposure) # rest) acc =
     total_exposure_loop rest (acc + \<bar>exposure\<bar>)"

definition getTotalNotionalExposure :: "RiskManager \<Rightarrow> real" where
  "getTotalNotionalExposure rm = total_exposure_loop (notional_exposures rm) 0"

definition updatePosition :: "RiskManager \<Rightarrow> Symbol \<Rightarrow> Side \<Rightarrow> Quantity \<Rightarrow> Price \<Rightarrow> RiskManager" where
  "updatePosition rm smb sd qty px =
     (let direction = (if sd = Buy then 1 else -1) :: Quantity;
          position_change = direction * qty;
          rm = rm\<lparr>positions := entry_update smb (\<lambda>v. v + position_change) 0 (positions rm)\<rparr>;
          notional = px * real_of_int qty
      in if direction > 0
         then rm\<lparr>notional_exposures :=
                   entry_update smb (\<lambda>v. v + notional) 0 (notional_exposures rm)\<rparr>
         else rm\<lparr>notional_exposures :=
                   entry_update smb (\<lambda>v. v - notional) 0 (notional_exposures rm)\<rparr>)"

definition reset :: "RiskManager \<Rightarrow> Timestamp \<Rightarrow> RiskManager" where
  "reset rm now =
     rm\<lparr>positions := [], average_prices := [], notional_exposures := [],
        orders_this_second := 0, rate_window_start := now\<rparr>"

text \<open>The loop of the global position check over \<^verbatim>\<open>positions_\<close>, from the running total.\<close>

fun total_pos_loop :: "Symbol \<Rightarrow> Quantity \<Rightarrow> (Symbol \<times> Quantity) list \<Rightarrow> Quantity \<Rightarrow> Quantity" where
  "total_pos_loop order_symbol new_pos [] total_pos = total_pos"
| "total_pos_loop order_symbol new_pos ((smb, pos) # rest) total_pos =
     total_pos_loop order_symbol new_pos rest
       (if smb = order_symbol then total_pos + \<bar>new_pos\<bar> else total_pos + \<bar>pos\<bar>)"

definition checkPositionLimit :: "RiskManager \<Rightarrow> Order \<Rightarrow> RiskCheckResult" where
  "checkPositionLimit rm order =
     (let current_pos = getPosition rm (symbol order);
          limit = getPositionLimit rm (symbol order);
          direction = (if side order = Buy then 1 else -1) :: Quantity;
          new_pos = current_pos + direction * quantity order
      in if \<bar>new_pos\<bar> > limit then check_failed (PositionLimitExceeded new_pos limit)
         else if global_position_limit rm > 0 \<and>
                 total_pos_loop (symbol order) new_pos (positions rm) 0 > global_position_limit rm
         then check_failed GlobalPositionLimitExceeded
         else check_ok)"

definition checkOrderSizeLimit :: "RiskManager \<Rightarrow> Order \<Rightarrow> RiskCheckResult" where
  "checkOrderSizeLimit rm order =
     (let limit = getOrderSizeLimit rm (symbol order)
      in if quantity order > limit
         then check_failed (OrderSizeLimitExceeded (quantity order) limit)
         else check_ok)"

text \<open>The loop of the global notional check over \<^verbatim>\<open>notional_exposures_\<close>.\<close>

fun total_exposure_with :: "Symbol \<Rightarrow> real \<Rightarrow> (Symbol \<times> real) list \<Rightarrow> real \<Rightarrow> real" where
  "total_exposure_with order_symbol new_exposure [] total_exposure = total_exposure"
| "total_exposure_with order_symbol new_exposure ((smb, ex) # rest) total_exposure =
     total_exposure_with order_symbol new_exposure rest
       (if smb = order_symbol then total_exposure + \<bar>new_exposure\<bar>
        else total_exposure + \<bar>ex\<bar>)"

definition checkNotionalLimit :: "RiskManager \<Rightarrow> Order \<Rightarrow> RiskCheckResult" where
  "checkNotionalLimit rm order =
     (let limit = getNotionalLimit rm (symbol order);
          current = getNotionalExposure rm (symbol order);
          order_notional = price order * real_of_int (quantity order);
          direction = (if side order = Buy then 1 else -1) :: Quantity;
          new_exposure = current + real_of_int direction * order_notional
      in if \<bar>new_exposure\<bar> > limit then check_failed (NotionalLimitExceeded new_exposure limit)
         else if global_notional_limit rm > 0 \<and>
                 total_exposure_with (symbol order) new_exposure (notional_exposures rm) 0
                   > global_notional_limit rm
         then check_failed GlobalNotionalLimitExceeded
         else check_ok)"

text \<open>
  The rate check reads the clock (\<open>now\<close>) and is the only check that writes. The elapsed
  whole seconds are the tick difference divided by the ticks of a second, truncated.
\<close>

definition checkOrderRate :: "RiskManager \<Rightarrow> Timestamp \<Rightarrow> RiskManager \<times> RiskCheckResult" where
  "checkOrderRate rm now =
     (if order_rate_limit rm = 0 then (rm, check_ok)
      else
        let elapsed = (now - rate_window_start rm) sdiv 1000000000;
            rm = (if elapsed \<ge> 1 then rm\<lparr>orders_this_second := 0, rate_window_start := now\<rparr>
                  else rm)
        in if orders_this_second rm \<ge> order_rate_limit rm
           then (rm, check_failed OrderRateLimitExceeded)
           else (rm\<lparr>orders_this_second := orders_this_second rm + 1\<rparr>, check_ok))"

definition checkOrder :: "RiskManager \<Rightarrow> Timestamp \<Rightarrow> Order \<Rightarrow> RiskManager \<times> RiskCheckResult" where
  "checkOrder rm now order =
     (case checkOrderRate rm now of (rm, rate_check) \<Rightarrow>
        if \<not> passed rate_check then (rm, rate_check)
        else if \<not> passed (checkOrderSizeLimit rm order) then (rm, checkOrderSizeLimit rm order)
        else if \<not> passed (checkPositionLimit rm order) then (rm, checkPositionLimit rm order)
        else if \<not> passed (checkNotionalLimit rm order) then (rm, checkNotionalLimit rm order)
        else (rm, check_ok))"


section \<open>The matching engine (matching_engine.hpp, matching_engine.cpp)\<close>

text \<open>
  The two callbacks are observers: the model records whether each is installed and
  returns, in call order, the events handed to them.
\<close>

datatype Event = FillEvent Fill | OrderEvent Order

record MatchingEngine =
  order_books :: "Symbol \<rightharpoonup> OrderBook"
  risk_manager :: "RiskManager option"
  fill_callback :: bool
  order_callback :: bool
  total_orders :: "64 word"
  total_fills :: "64 word"

definition new_engine :: MatchingEngine where
  "new_engine =
     \<lparr>order_books = Map.empty, risk_manager = None, fill_callback = False,
      order_callback = False, total_orders = 0, total_fills = 0\<rparr>"

definition notifyFill :: "MatchingEngine \<Rightarrow> Fill \<Rightarrow> Event list" where
  "notifyFill e fill = (if fill_callback e then [FillEvent fill] else [])"

definition notifyOrder :: "MatchingEngine \<Rightarrow> Order \<Rightarrow> Event list" where
  "notifyOrder e order = (if order_callback e then [OrderEvent order] else [])"

definition getOrderBook :: "MatchingEngine \<Rightarrow> Symbol \<Rightarrow> OrderBook option" where
  "getOrderBook e smb = order_books e smb"

definition getOrCreateOrderBook :: "MatchingEngine \<Rightarrow> Symbol \<Rightarrow> MatchingEngine \<times> OrderBook" where
  "getOrCreateOrderBook e smb =
     (case order_books e smb of
        None \<Rightarrow> (e\<lparr>order_books := (order_books e)(smb \<mapsto> new_book smb)\<rparr>, new_book smb)
      | Some book \<Rightarrow> (e, book))"

text \<open>The limit handed to the match primitive (the head of \<^verbatim>\<open>matchOrder\<close>).\<close>

definition effective_limit_price :: "Order \<Rightarrow> Price" where
  "effective_limit_price order =
     (if otype order = Market then (if side order = Buy then 1000000000000 else 0)
      else price order)"

text \<open>The loop of \<^verbatim>\<open>matchOrder\<close> over the fills: the order, the events and the fill
  counter.\<close>

fun record_fills ::
  "MatchingEngine \<Rightarrow> Fill list \<Rightarrow> Order \<times> Event list \<times> 64 word \<Rightarrow> Order \<times> Event list \<times> 64 word" where
  "record_fills e [] st = st"
| "record_fills e (fill # fills) (order, events, n) =
     record_fills e fills (apply_fill order (fill_quantity fill), events @ notifyFill e fill, n + 1)"

text \<open>
  \<^verbatim>\<open>matchOrder\<close> works on the book and the order by reference; the model returns both,
  with the fills, the events and the engine (for its fill counter).
\<close>

definition matchOrder ::
  "MatchingEngine \<Rightarrow> OrderBook \<Rightarrow> Order
     \<Rightarrow> MatchingEngine \<times> OrderBook \<times> Order \<times> Fill list \<times> Event list" where
  "matchOrder e book order =
     (let limit_price = effective_limit_price order;
          (book, fills) = (if remaining_qty order > 0
                           then executeFill book (side order) (remaining_qty order)
                                  limit_price (oid order)
                           else (book, []));
          (order, events, n) = record_fills e fills (order, [], total_fills e);
          e = e\<lparr>total_fills := n\<rparr>
      in if remaining_qty order > 0 then
           (case otype order of
              Limit \<Rightarrow> (e, fst (addOrder book order), order, fills, events)
            | Market \<Rightarrow> (e, book, cancel order, fills, events)
            | IOC \<Rightarrow> (e, book, cancel order, fills, events)
            | FOK \<Rightarrow> (e, book, cancel order, fills, events))
         else (e, book, order, fills, events))"

text \<open>The loop of \<^verbatim>\<open>submitOrder\<close> that books the fills with the risk manager.\<close>

fun update_positions :: "RiskManager \<Rightarrow> Fill list \<Rightarrow> RiskManager" where
  "update_positions rm [] = rm"
| "update_positions rm (fill # fills) =
     update_positions
       (updatePosition rm (fill_symbol fill) (fill_side fill) (fill_quantity fill)
          (fill_price fill)) fills"

text \<open>\<^verbatim>\<open>submitOrder\<close> after the risk check.\<close>

definition process_order ::
  "MatchingEngine \<Rightarrow> Order \<Rightarrow> MatchingEngine \<times> Fill list \<times> Event list" where
  "process_order e order =
     (case getOrCreateOrderBook e (symbol order) of (e, book) \<Rightarrow>
        (case matchOrder e book order of (e, book', order', fills, events) \<Rightarrow>
           let e = e\<lparr>order_books := (order_books e)(symbol order \<mapsto> book')\<rparr>;
               e = (case risk_manager e of
                      None \<Rightarrow> e
                    | Some rm \<Rightarrow> e\<lparr>risk_manager := Some (update_positions rm fills)\<rparr>)
           in (e, fills, events @ notifyOrder e order')))"

text \<open>
  \<^verbatim>\<open>submitOrder\<close>; \<open>now\<close> is the clock reading of the rate check. The result is the
  engine, the returned fills and the events handed to the callbacks.
\<close>

definition submitOrder ::
  "MatchingEngine \<Rightarrow> Timestamp \<Rightarrow> Order \<Rightarrow> MatchingEngine \<times> Fill list \<times> Event list" where
  "submitOrder e now order =
     (let e = e\<lparr>total_orders := total_orders e + 1\<rparr>
      in case risk_manager e of
           None \<Rightarrow> process_order e order
         | Some rm \<Rightarrow>
             (case checkOrder rm now order of (rm, result) \<Rightarrow>
                let e = e\<lparr>risk_manager := Some rm\<rparr>
                in if \<not> passed result then (e, [], notifyOrder e (reject order))
                   else process_order e order))"


definition engine_cancelOrder :: "MatchingEngine \<Rightarrow> Symbol \<Rightarrow> OrderId \<Rightarrow> MatchingEngine \<times> bool" where
  "engine_cancelOrder e smb order_id =
     (case order_books e smb of
        None \<Rightarrow> (e, False)
      | Some book \<Rightarrow>
          (case cancelOrder book order_id of
             (book, r) \<Rightarrow> (e\<lparr>order_books := (order_books e)(smb \<mapsto> book)\<rparr>, r)))"

definition engine_modifyOrder ::
  "MatchingEngine \<Rightarrow> Symbol \<Rightarrow> OrderId \<Rightarrow> Price \<Rightarrow> Quantity \<Rightarrow> Timestamp \<Rightarrow> MatchingEngine \<times> bool" where
  "engine_modifyOrder e smb order_id new_price new_quantity now =
     (case order_books e smb of
        None \<Rightarrow> (e, False)
      | Some book \<Rightarrow>
          (case modifyOrder book order_id new_price new_quantity now of
             (book, r) \<Rightarrow> (e\<lparr>order_books := (order_books e)(smb \<mapsto> book)\<rparr>, r)))"

section \<open>Properties of books\<close>

text \<open>
  A level is sound when its cached total is the sum of the remaining quantities of its
  orders, as a 64-bit value, and it has an order; inside the match loop a level may be empty for a moment,
  and only its total is asked to match. The books that the four operations build from an
  empty book are the reachable ones.
\<close>

definition level_sound :: "PriceLevel \<Rightarrow> bool" where
  "level_sound l =
     (total_quantity l = int64 (sum_list (map remaining_qty (orders l))) \<and> orders l \<noteq> [])"

definition levels_sound :: "LevelMap \<Rightarrow> bool" where
  "levels_sound m = (\<forall>kl \<in> set m. level_sound (snd kl))"

inductive reachable :: "OrderBook \<Rightarrow> bool" where
  reachable_new: "reachable (new_book smb)"
| reachable_add: "reachable b \<Longrightarrow> reachable (fst (addOrder b order))"
| reachable_cancel: "reachable b \<Longrightarrow> reachable (fst (cancelOrder b i))"
| reachable_modify: "reachable b \<Longrightarrow> reachable (fst (modifyOrder b i p q now))"
| reachable_fill: "reachable b \<Longrightarrow> reachable (fst (executeFill b s q limit a))"

definition book_sound :: "OrderBook \<Rightarrow> bool" where
  "book_sound b = (levels_sound (bid_levels b) \<and> levels_sound (ask_levels b))"

definition total_matches :: "PriceLevel \<Rightarrow> bool" where
  "total_matches l = (total_quantity l = int64 (sum_list (map remaining_qty (orders l))))"

text \<open>
  Agreement of the id index with the levels: the levels of a side are strictly sorted by
  their keys in the order of the side (\<open>price_order\<close> names the two orders), every level
  carries its key as price, the ids within a level are distinct, every order rests under
  its own price and side and is indexed there (\<open>level_ok\<close>), and every index entry of
  the side names an order of the level it points at (\<open>resolves\<close>). \<open>passive_ok\<close> is
  the same for the side being matched, where sortedness is only needed as distinctness
  of the keys, and \<open>lookup_shrinks\<close> says that an index has only lost entries of one
  side.
\<close>

definition level_ok :: "Side \<Rightarrow> (OrderId \<rightharpoonup> OrderLocation) \<Rightarrow> Price \<times> PriceLevel \<Rightarrow> bool" where
  "level_ok s lk kl =
     (level_price (snd kl) = fst kl \<and> distinct (map oid (orders (snd kl))) \<and>
      (\<forall>x \<in> set (orders (snd kl)).
          price x = fst kl \<and> side x = s \<and>
          lk (oid x) = Some \<lparr>loc_side = s, loc_price = fst kl\<rparr>))"

definition resolves :: "Side \<Rightarrow> (OrderId \<rightharpoonup> OrderLocation) \<Rightarrow> LevelMap \<Rightarrow> bool" where
  "resolves s lk m =
     (\<forall>i p. lk i = Some \<lparr>loc_side = s, loc_price = p\<rparr> \<longrightarrow>
        (\<exists>l. level_find p m = Some l \<and> i \<in> oid ` set (orders l)))"

definition side_ok ::
  "(Price \<Rightarrow> Price \<Rightarrow> bool) \<Rightarrow> Side \<Rightarrow> (OrderId \<rightharpoonup> OrderLocation) \<Rightarrow> LevelMap \<Rightarrow> bool" where
  "side_ok cmp s lk m =
     (sorted_wrt cmp (map fst m) \<and> (\<forall>kl \<in> set m. level_ok s lk kl) \<and> resolves s lk m)"

definition book_inv :: "OrderBook \<Rightarrow> bool" where
  "book_inv b =
     (side_ok (>) Buy (order_lookup b) (bid_levels b) \<and>
      side_ok (<) Sell (order_lookup b) (ask_levels b) \<and> book_sound b)"

definition price_order :: "(Price \<Rightarrow> Price \<Rightarrow> bool) \<Rightarrow> bool" where
  "price_order cmp = (cmp = (<) \<or> cmp = (>))"

definition lookup_shrinks ::
  "Side \<Rightarrow> (OrderId \<rightharpoonup> OrderLocation) \<Rightarrow> (OrderId \<rightharpoonup> OrderLocation) \<Rightarrow> bool" where
  "lookup_shrinks s lk lk' =
     (\<forall>j. lk' j = lk j \<or> (lk' j = None \<and> map_option loc_side (lk j) = Some s))"

definition passive_ok :: "Side \<Rightarrow> (OrderId \<rightharpoonup> OrderLocation) \<Rightarrow> LevelMap \<Rightarrow> bool" where
  "passive_ok s lk m =
     (distinct (map fst m) \<and> (\<forall>kl \<in> set m. level_ok s lk kl) \<and> resolves s lk m)"





fun spec_fills :: "OrderId \<Rightarrow> Symbol \<Rightarrow> Side \<Rightarrow> Quantity \<Rightarrow> (Price \<times> Order) list \<Rightarrow> Fill list" where
  "spec_fills a smb d remaining [] = []"
| "spec_fills a smb d remaining ((p, passive) # queue) =
     (if remaining > 0
      then mk_fill a (oid passive) smb d p (min remaining (remaining_qty passive))
           # spec_fills a smb d (remaining - min remaining (remaining_qty passive)) queue
      else [])"



section \<open>Books, orders and engines of the worked cases\<close>

text \<open>
  The orders are built by the constructor at clock reading 0. \<open>partly_filled_book\<close> is
  the book of one sell order of 100 at 150 (id 1) of which a buy has taken 60;
  \<open>two_asks\<close> holds sell orders of 100 at 150 (id 1) and 200 at 151 (id 2);
  \<open>two_bids\<close> holds buy orders of 100 at 150 (id 1) and 200 at 149 (id 2);
  \<open>overflow_book\<close> holds sell orders of 9223372036854775807 (id 1) and 1 (id 2), both
  at 150;
  \<open>far_book\<close> holds one sell order at the price 2000000000000. \<open>listening_engine\<close> has
  no risk manager, the order callback installed and the sell order of 100 at 150 resting;
  \<open>guarded_engine\<close> has a risk manager with an order size limit of 100 for the symbol.
\<close>

definition ex_sell1 :: Order where
  "ex_sell1 = mk_order 1 ''AAPL'' Sell Limit 150 100 0"

definition ex_negative_price :: Order where
  "ex_negative_price = mk_order 2 ''AAPL'' Buy Limit (-1) 100 0"

definition global100 :: RiskManager where
  "global100 = (new_risk_manager 0)\<lparr>global_position_limit := 100\<rparr>"

definition buy150 :: Order where
  "buy150 = mk_order 1 ''AAPL'' Buy Limit 150 150 0"

definition exposed_rm :: RiskManager where
  "exposed_rm = (new_risk_manager 0)\<lparr>notional_exposures := [(''AAPL'', 5000000)],
                                     global_notional_limit := 6000000\<rparr>"

definition market_buy :: Order where
  "market_buy = mk_order 7 ''AAPL'' Buy Market 0 10000 0"

definition size100_rm :: RiskManager where
  "size100_rm = (new_risk_manager 0)\<lparr>order_size_limits := [''AAPL'' \<mapsto> 100]\<rparr>"

definition guarded_engine :: MatchingEngine where
  "guarded_engine = new_engine\<lparr>risk_manager := Some size100_rm, order_callback := True\<rparr>"

definition buy200 :: Order where
  "buy200 = mk_order 2 ''AAPL'' Buy Limit 150 200 0"

definition partly_filled_book :: OrderBook where
  "partly_filled_book = fst (executeFill (fst (addOrder (new_book ''AAPL'') ex_sell1)) Buy 60 0 9)"

definition zero_qty :: Order where
  "zero_qty = mk_order 5 ''AAPL'' Buy Limit 150 0 0"

definition listening_engine :: MatchingEngine where
  "listening_engine =
     new_engine\<lparr>order_books := [''AAPL'' \<mapsto> fst (addOrder (new_book ''AAPL'') ex_sell1)],
                order_callback := True\<rparr>"

definition far_ask :: Order where
  "far_ask = mk_order 1 ''AAPL'' Sell Limit 2000000000000 100 0"

definition far_book :: OrderBook where
  "far_book = fst (addOrder (new_book ''AAPL'') far_ask)"




definition max_sell :: Order where
  "max_sell = mk_order 1 ''AAPL'' Sell Limit 150 9223372036854775807 0"

definition one_sell :: Order where
  "one_sell = mk_order 2 ''AAPL'' Sell Limit 150 1 0"

definition overflow_book :: OrderBook where
  "overflow_book = fst (addOrder (fst (addOrder (new_book ''AAPL'') max_sell)) one_sell)"



section \<open>64-bit totals\<close>

lemma int64_add_left: "int64 (int64 a + b) = int64 (a + b)"
  by (simp add: int64_def algebra_simps mod_simps)

lemma int64_diff_left: "int64 (int64 a - b) = int64 (a - b)"
  by (simp add: int64_def algebra_simps mod_simps)

lemma int64_in_range:
  "- 9223372036854775808 \<le> x \<Longrightarrow> x < 9223372036854775808 \<Longrightarrow> int64 x = x"
  by (simp add: int64_def)

section \<open>Lookup in the level maps\<close>

lemma level_find_put_same: "level_find p (level_put cmp p v m) = Some v"
  by (induction m) auto

lemma level_find_put_other: "q \<noteq> p \<Longrightarrow> level_find q (level_put cmp p v m) = level_find q m"
  by (induction m) auto

section \<open>addOrder\<close>

text \<open>
  C7. \<open>addOrder\<close> answers false exactly when the remaining quantity is not positive, the
  price is negative or the id is in the id index, and then the book is the one it was
  given. Otherwise the level at the order's price on the order's side has the order
  appended to its FIFO and the order's remaining quantity added to its total, in the
  64-bit arithmetic of the total (a level that was absent is created with the order
  alone), every other level of that side and
  the whole other side are as before, and the id index has gained the order's id with
  its side and price.
\<close>

theorem addOrder_contract:
  "(\<not> snd (addOrder b order) \<longleftrightarrow>
      remaining_qty order \<le> 0 \<or> price order < 0 \<or> oid order \<in> dom (order_lookup b))
   \<and> (\<not> snd (addOrder b order) \<longrightarrow> fst (addOrder b order) = b)
   \<and> (snd (addOrder b order) \<longrightarrow>
        level_find (price order) (side_levels (fst (addOrder b order)) (side order)) =
          Some (case level_find (price order) (side_levels b (side order)) of
                  None \<Rightarrow> \<lparr>level_price = price order,
                            total_quantity = int64 (remaining_qty order),
                            orders = [order]\<rparr>
                | Some l \<Rightarrow> l\<lparr>level_price := (if orders l = [] then price order
                                                else level_price l),
                              orders := orders l @ [order],
                              total_quantity :=
                                int64 (total_quantity l + remaining_qty order)\<rparr>)
        \<and> (\<forall>q. q \<noteq> price order \<longrightarrow>
               level_find q (side_levels (fst (addOrder b order)) (side order)) =
               level_find q (side_levels b (side order)))
        \<and> (\<forall>s. s \<noteq> side order \<longrightarrow>
               side_levels (fst (addOrder b order)) s = side_levels b s)
        \<and> order_lookup (fst (addOrder b order)) =
            (order_lookup b)(oid order \<mapsto> \<lparr>loc_side = side order, loc_price = price order\<rparr>))"
proof (intro conjI impI)
  show "(\<not> snd (addOrder b order)) =
        (remaining_qty order \<le> 0 \<or> price order < 0 \<or> oid order \<in> dom (order_lookup b))"
    by (auto simp: addOrder_def isValidOrder_def)
next
  assume "\<not> snd (addOrder b order)"
  then show "fst (addOrder b order) = b"
    by (auto simp: addOrder_def split: if_splits)
next
  assume ok: "snd (addOrder b order)"
  then have valid: "isValidOrder order" "order_lookup b (oid order) = None"
    by (auto simp: addOrder_def split: if_splits)
  show "level_find (price order) (side_levels (fst (addOrder b order)) (side order)) =
          Some (case level_find (price order) (side_levels b (side order)) of
                  None \<Rightarrow> \<lparr>level_price = price order,
                            total_quantity = int64 (remaining_qty order),
                            orders = [order]\<rparr>
                | Some l \<Rightarrow> l\<lparr>level_price := (if orders l = [] then price order
                                                else level_price l),
                              orders := orders l @ [order],
                              total_quantity :=
                                int64 (total_quantity l + remaining_qty order)\<rparr>)"
    using valid
    by (cases "side order")
       (auto simp: addOrder_def side_levels_def level_find_put_same level_at_def push_order_def
                   new_level_def Let_def split: option.splits)
  show "\<forall>q. q \<noteq> price order \<longrightarrow>
          level_find q (side_levels (fst (addOrder b order)) (side order)) =
          level_find q (side_levels b (side order))"
    using valid
    by (cases "side order") (auto simp: addOrder_def side_levels_def level_find_put_other)
  show "\<forall>s. s \<noteq> side order \<longrightarrow> side_levels (fst (addOrder b order)) s = side_levels b s"
  proof (intro allI impI)
    fix s
    assume "s \<noteq> side order"
    with valid show "side_levels (fst (addOrder b order)) s = side_levels b s"
      by (cases s; cases "side order") (auto simp: addOrder_def side_levels_def)
  qed
  show "order_lookup (fst (addOrder b order)) =
          (order_lookup b)(oid order \<mapsto> \<lparr>loc_side = side order, loc_price = price order\<rparr>)"
    using valid
    by (cases "side order") (auto simp: addOrder_def)
qed

theorem addOrder_contract_witness:
  "snd (addOrder (new_book ''AAPL'') ex_sell1)
   \<and> level_find 150 (side_levels (fst (addOrder (new_book ''AAPL'') ex_sell1)) Sell) =
       Some \<lparr>level_price = 150, total_quantity = 100, orders = [ex_sell1]\<rparr>
   \<and> \<not> snd (addOrder (new_book ''AAPL'') ex_negative_price)
   \<and> fst (addOrder (new_book ''AAPL'') ex_negative_price) = new_book ''AAPL''"
  using addOrder_contract [of "new_book ''AAPL''" ex_sell1]
        addOrder_contract [of "new_book ''AAPL''" ex_negative_price]
  by (simp add: ex_sell1_def ex_negative_price_def mk_order_def new_book_def remaining_qty_def
                side_levels_def int64_def)

section \<open>The global position check\<close>

text \<open>
  C2. With a global position limit of 100 and no position recorded for any symbol, a buy
  of 150 would take the position from 0 to 150, above the limit, and the check passes
  it: the loop runs over the recorded positions only, and the order's symbol has none.
  With a position of 0 recorded for the symbol, the same order is rejected.
\<close>

theorem global_position_check_skips_new_symbol:
  "getPosition global100 (symbol buy150) = 0
   \<and> \<bar>getPosition global100 (symbol buy150) + quantity buy150\<bar> > global_position_limit global100
   \<and> passed (checkPositionLimit global100 buy150)
   \<and> passed (snd (checkOrder global100 0 buy150))
   \<and> \<not> passed (checkPositionLimit (global100\<lparr>positions := [(''AAPL'', 0)]\<rparr>) buy150)"
  by (simp add: global100_def buy150_def new_risk_manager_def mk_order_def getPosition_def
        checkPositionLimit_def getPositionLimit_def DEFAULT_POSITION_LIMIT_def check_ok_def
        check_failed_def checkOrder_def checkOrderRate_def checkOrderSizeLimit_def
        getOrderSizeLimit_def DEFAULT_ORDER_SIZE_LIMIT_def checkNotionalLimit_def
        getNotionalLimit_def DEFAULT_NOTIONAL_LIMIT_def getNotionalExposure_def Let_def)

section \<open>The notional check on an order of price 0\<close>

lemma total_exposure_with_absent:
  "s \<notin> fst ` set xs \<Longrightarrow> total_exposure_with s n xs acc = total_exposure_loop xs acc"
  by (induction xs arbitrary: acc) auto

lemma total_exposure_with_current:
  "distinct (map fst xs) \<Longrightarrow>
   total_exposure_with s (case entry_find s xs of Some v \<Rightarrow> v | None \<Rightarrow> 0) xs acc =
   total_exposure_loop xs acc"
proof (induction xs arbitrary: acc)
  case Nil
  show ?case by simp
next
  case (Cons kv xs)
  obtain k v where kv: "kv = (k, v)" by (cases kv)
  show ?case
  proof (cases "k = s")
    case True
    with Cons.prems kv have "s \<notin> fst ` set xs" by auto
    with True kv show ?thesis by (simp add: total_exposure_with_absent)
  next
    case False
    with Cons kv show ?thesis by simp
  qed
qed

text \<open>
  C10. An order of price 0, as a market order is, has the notional \<open>price * quantity = 0\<close>
  whatever its quantity. When the exposure of its symbol is within the symbol's notional
  limit and, if a global notional limit is set, the total exposure is within it, the
  notional check passes the order. The exposure table has one entry per symbol.
\<close>

theorem zero_price_passes_notional_check:
  assumes "price order = 0"
    and "distinct (map fst (notional_exposures rm))"
    and "\<bar>getNotionalExposure rm (symbol order)\<bar> \<le> getNotionalLimit rm (symbol order)"
    and "global_notional_limit rm > 0 \<longrightarrow> getTotalNotionalExposure rm \<le> global_notional_limit rm"
  shows "price order * real_of_int (quantity order) = 0 \<and> passed (checkNotionalLimit rm order)"
  using assms total_exposure_with_current [of "notional_exposures rm" "symbol order" 0]
  by (auto simp: checkNotionalLimit_def Let_def check_ok_def check_failed_def
                getNotionalExposure_def getTotalNotionalExposure_def)

theorem zero_price_passes_notional_check_witness:
  "otype market_buy = Market \<and> price market_buy = 0
   \<and> distinct (map fst (notional_exposures exposed_rm))
   \<and> \<bar>getNotionalExposure exposed_rm (symbol market_buy)\<bar>
       \<le> getNotionalLimit exposed_rm (symbol market_buy)
   \<and> global_notional_limit exposed_rm > 0
   \<and> getTotalNotionalExposure exposed_rm \<le> global_notional_limit exposed_rm
   \<and> passed (checkNotionalLimit exposed_rm market_buy)"
proof -
  have h: "price market_buy = 0" "distinct (map fst (notional_exposures exposed_rm))"
    "\<bar>getNotionalExposure exposed_rm (symbol market_buy)\<bar>
       \<le> getNotionalLimit exposed_rm (symbol market_buy)"
    "global_notional_limit exposed_rm > 0 \<longrightarrow>
       getTotalNotionalExposure exposed_rm \<le> global_notional_limit exposed_rm"
    by (simp_all add: market_buy_def exposed_rm_def mk_order_def new_risk_manager_def
          getNotionalExposure_def getNotionalLimit_def DEFAULT_NOTIONAL_LIMIT_def
          getTotalNotionalExposure_def)
  from zero_price_passes_notional_check [OF h] h show ?thesis
    by (simp add: market_buy_def exposed_rm_def mk_order_def new_risk_manager_def)
qed

section \<open>Risk rejection in submitOrder\<close>

lemma checkOrderRate_tables:
  "positions (fst (checkOrderRate rm now)) = positions rm \<and>
   notional_exposures (fst (checkOrderRate rm now)) = notional_exposures rm"
  by (simp add: checkOrderRate_def Let_def)

lemma checkOrder_tables:
  "positions (fst (checkOrder rm now order)) = positions rm \<and>
   notional_exposures (fst (checkOrder rm now order)) = notional_exposures rm"
  using checkOrderRate_tables [of rm now]
  by (auto simp: checkOrder_def split: prod.splits)

text \<open>
  C8. When the engine has a risk manager and its check rejects the order, \<open>submitOrder\<close>
  returns no fill, hands the order callback the order with status \<open>Rejected\<close> and
  nothing else, leaves every order book, every position and every notional exposure as
  it was, and has counted the submission in \<open>total_orders\<close> but nothing in
  \<open>total_fills\<close>.
\<close>

theorem submitOrder_risk_rejection:
  assumes "risk_manager e = Some rm" and "\<not> passed (snd (checkOrder rm now order))"
  shows "fst (snd (submitOrder e now order)) = []
       \<and> snd (snd (submitOrder e now order)) = notifyOrder e (order\<lparr>status := Rejected\<rparr>)
       \<and> order_books (fst (submitOrder e now order)) = order_books e
       \<and> map_option positions (risk_manager (fst (submitOrder e now order))) = Some (positions rm)
       \<and> map_option notional_exposures (risk_manager (fst (submitOrder e now order))) =
           Some (notional_exposures rm)
       \<and> total_orders (fst (submitOrder e now order)) = total_orders e + 1
       \<and> total_fills (fst (submitOrder e now order)) = total_fills e"
  using assms checkOrder_tables [of rm now order]
  by (auto simp: submitOrder_def Let_def notifyOrder_def reject_def split: prod.splits)

theorem submitOrder_risk_rejection_witness:
  "risk_manager guarded_engine = Some size100_rm
   \<and> \<not> passed (snd (checkOrder size100_rm 0 buy200))
   \<and> fst (snd (submitOrder guarded_engine 0 buy200)) = []
   \<and> snd (snd (submitOrder guarded_engine 0 buy200)) = [OrderEvent (buy200\<lparr>status := Rejected\<rparr>)]
   \<and> order_books (fst (submitOrder guarded_engine 0 buy200)) = Map.empty
   \<and> total_orders (fst (submitOrder guarded_engine 0 buy200)) = 1
   \<and> total_fills (fst (submitOrder guarded_engine 0 buy200)) = 0"
proof -
  have h: "risk_manager guarded_engine = Some size100_rm"
    "\<not> passed (snd (checkOrder size100_rm 0 buy200))"
    by (simp_all add: guarded_engine_def size100_rm_def buy200_def new_engine_def
          new_risk_manager_def mk_order_def checkOrder_def checkOrderRate_def check_ok_def
          check_failed_def checkOrderSizeLimit_def getOrderSizeLimit_def)
  from submitOrder_risk_rejection [OF h] h show ?thesis
    by (simp add: guarded_engine_def new_engine_def notifyOrder_def)
qed


section \<open>Totals and emptiness of the levels\<close>

lemma level_find_in_set: "level_find p m = Some l \<Longrightarrow> (p, l) \<in> set m"
  by (induction m) (auto split: if_splits)

lemma set_level_put: "set (level_put cmp p v m) \<subseteq> insert (p, v) (set m)"
  by (induction m) (auto split: if_splits)

lemma set_level_store: "set (level_store p v m) \<subseteq> insert (p, v) (set m)"
  by (induction m) (auto split: if_splits)

lemma set_level_erase: "set (level_erase p m) \<subseteq> set m"
  by (induction m) (auto split: if_splits)

lemma sum_erase_order:
  "find_order i os = Some x \<Longrightarrow>
   sum_list (map remaining_qty (erase_order i os)) = sum_list (map remaining_qty os) - remaining_qty x"
  by (induction os) (auto split: if_splits)

lemma sum_set_order_quantity:
  "find_order i os = Some x \<Longrightarrow>
   sum_list (map remaining_qty (set_order_quantity i q os)) =
     sum_list (map remaining_qty os) + (q - quantity x)"
  by (induction os) (auto simp: remaining_qty_def split: if_splits)

lemma set_order_quantity_Nil: "set_order_quantity i q os = [] \<longleftrightarrow> os = []"
  by (cases os) auto

lemma levels_sound_put:
  "levels_sound m \<Longrightarrow> level_sound v \<Longrightarrow> levels_sound (level_put cmp p v m)"
  using set_level_put [of cmp p v m] by (auto simp: levels_sound_def)

lemma levels_sound_store:
  "levels_sound m \<Longrightarrow> level_sound v \<Longrightarrow> levels_sound (level_store p v m)"
  using set_level_store [of p v m] by (auto simp: levels_sound_def)

lemma levels_sound_erase: "levels_sound m \<Longrightarrow> levels_sound (level_erase p m)"
  using set_level_erase [of p m] by (auto simp: levels_sound_def)

lemma levels_sound_find: "levels_sound m \<Longrightarrow> level_find p m = Some l \<Longrightarrow> level_sound l"
  by (drule level_find_in_set) (auto simp: levels_sound_def)

lemma level_sound_push:
  "levels_sound m \<Longrightarrow> level_sound (push_order order (level_at p m))"
  by (auto simp: push_order_def level_at_def new_level_def level_sound_def Let_def
                 int64_add_left
           dest: levels_sound_find split: option.splits)

lemma levels_sound_cancel_in: "levels_sound m \<Longrightarrow> levels_sound (cancel_in i p m)"
  by (auto simp: cancel_in_def Let_def level_sound_def sum_erase_order int64_diff_left
           intro!: levels_sound_erase levels_sound_store dest: levels_sound_find
           split: option.splits)

lemma levels_sound_requantify_in:
  "levels_sound m \<Longrightarrow> level_find p m = Some l \<Longrightarrow> find_order i (orders l) = Some x \<Longrightarrow>
   levels_sound (requantify_in i p q (q - quantity x) m)"
  by (auto simp: requantify_in_def Let_def level_sound_def sum_set_order_quantity
                 set_order_quantity_Nil int64_add_left
           intro!: levels_sound_store dest: levels_sound_find)

lemma book_sound_addOrder: "book_sound b \<Longrightarrow> book_sound (fst (addOrder b order))"
  by (auto simp: book_sound_def addOrder_def intro!: levels_sound_put level_sound_push)

lemma book_sound_cancelOrder: "book_sound b \<Longrightarrow> book_sound (fst (cancelOrder b i))"
  by (auto simp: book_sound_def cancelOrder_def Let_def intro!: levels_sound_cancel_in
           split: option.splits)

lemma book_sound_modifyOrder:
  assumes "book_sound b"
  shows "book_sound (fst (modifyOrder b i p q now))"
proof (cases "order_lookup b i")
  case None
  with assms show ?thesis by (simp add: modifyOrder_def)
next
  case (Some loc)
  show ?thesis
  proof (cases "deref b loc i")
    case None
    with Some assms show ?thesis by (simp add: modifyOrder_def)
  next
    case (Some old)
    then obtain l where l: "level_find (loc_price loc) (side_levels b (loc_side loc)) = Some l"
      "find_order i (orders l) = Some old"
      by (auto simp: deref_def split: option.splits)
    show ?thesis
    proof (cases "p > 0 \<and> p \<noteq> loc_price loc")
      case True
      with \<open>order_lookup b i = Some loc\<close> Some assms show ?thesis
        by (simp add: modifyOrder_def Let_def book_sound_addOrder book_sound_cancelOrder)
    next
      case False
      with \<open>order_lookup b i = Some loc\<close> Some assms l show ?thesis
        by (auto simp: modifyOrder_def Let_def book_sound_def side_levels_def
                 intro!: levels_sound_requantify_in split: if_splits)
    qed
  qed
qed

lemma is_filled_apply_fill:
  "is_filled (apply_fill x q) \<longleftrightarrow> remaining_qty x \<le> q"
  by (auto simp: is_filled_def apply_fill_def Let_def remaining_qty_def)

lemma remaining_apply_fill: "remaining_qty (apply_fill x q) = remaining_qty x - q"
  by (auto simp: apply_fill_def Let_def remaining_qty_def)

lemma fill_head_total:
  assumes "orders lv \<noteq> []" and "total_matches lv"
    and "fill_head a s d (q, lv, rest) = (q', lv', rest')"
  shows "total_matches lv'"
proof -
  from assms(1) obtain x xs where os: "orders lv = x # xs" by (cases "orders lv") auto
  obtain fs lk so where rest: "rest = (fs, lk, so)" by (cases rest)
  define fq where "fq = min q (remaining_qty x)"
  from assms(2) os have total: "total_quantity lv = int64 (remaining_qty x + sum_list (map remaining_qty xs))"
    by (simp add: total_matches_def)
  show ?thesis
  proof (cases "is_filled (apply_fill x fq)")
    case True
    then have "fq = remaining_qty x" by (simp add: is_filled_apply_fill fq_def)
    moreover from True assms(3) os rest
    have "orders lv' = xs" "total_quantity lv' = int64 (total_quantity lv - fq)"
      by (auto simp: fill_head_def Let_def fq_def)
    ultimately show ?thesis by (simp add: total_matches_def total int64_diff_left)
  next
    case False
    with assms(3) os rest
    have "orders lv' = apply_fill x fq # xs" "total_quantity lv' = int64 (total_quantity lv - fq)"
      by (auto simp: fill_head_def Let_def fq_def)
    then show ?thesis
      by (simp add: total_matches_def total int64_diff_left remaining_apply_fill algebra_simps)
  qed
qed

lemma match_level_total:
  "total_matches lv \<Longrightarrow> match_level a s d (q, lv, rest) = (q', lv', rest') \<Longrightarrow>
   total_matches lv'"
proof (induction a s d "(q, lv, rest)" arbitrary: q lv rest rule: match_level.induct)
  case (1 a s d q lv rest)
  show ?case
  proof (cases "q > 0 \<and> orders lv \<noteq> []")
    case True
    obtain q1 lv1 rest1 where step: "fill_head a s d (q, lv, rest) = (q1, lv1, rest1)"
      by (cases "fill_head a s d (q, lv, rest)") auto
    from True "1.prems"(1) step have "total_matches lv1" by (auto intro: fill_head_total)
    moreover from True "1.prems"(2) step
    have "match_level a s d (q1, lv1, rest1) = (q', lv', rest')"
      by (simp add: match_level.simps)
    ultimately show ?thesis using "1.hyps" [OF True step] by blast
  next
    case False
    with "1.prems" show ?thesis by (auto simp: match_level.simps)
  qed
qed

lemma consume_level_sound:
  assumes "levels \<noteq> []" and "levels_sound levels"
    and "consume_level a s d (q, levels, rest) = (q', levels', rest')"
  shows "levels_sound levels'"
proof -
  from assms(1) obtain k l ls where levels: "levels = (k, l) # ls" by (cases levels) auto
  obtain fs lk so where rest: "rest = (fs, lk, so)" by (cases rest)
  obtain r l' rest1 where inner: "match_level a s d (q, l, rest) = (r, l', rest1)"
    by (cases "match_level a s d (q, l, rest)") auto
  from assms(2) levels have "total_matches l" "levels_sound ls"
    by (auto simp: levels_sound_def level_sound_def total_matches_def)
  with match_level_total [OF _ inner] have "total_matches l'" by simp
  with assms(3) levels rest inner \<open>levels_sound ls\<close> show ?thesis
    by (cases rest1)
       (auto simp: consume_level_def levels_sound_def level_sound_def total_matches_def
             split: if_splits)
qed

lemma match_levels_sound:
  "levels_sound levels \<Longrightarrow> match_levels a s d limit (q, levels, rest) = (q', levels', rest') \<Longrightarrow>
   levels_sound levels'"
proof (induction a s d limit "(q, levels, rest)" arbitrary: q levels rest
       rule: match_levels.induct)
  case (1 a s d limit q levels rest)
  show ?case
  proof (cases "q > 0 \<and> levels \<noteq> [] \<and> \<not> gate_stops d limit (snd (hd levels))")
    case True
    obtain q1 levels1 rest1 where
      step: "consume_level a s d (q, levels, rest) = (q1, levels1, rest1)"
      by (cases "consume_level a s d (q, levels, rest)") auto
    from True "1.prems"(1) step have "levels_sound levels1"
      by (auto intro: consume_level_sound)
    moreover from True "1.prems"(2) step
    have "match_levels a s d limit (q1, levels1, rest1) = (q', levels', rest')"
      by (simp add: match_levels.simps)
    ultimately show ?thesis using "1.hyps" [OF _ _ step] True by blast
  next
    case False
    with "1.prems" show ?thesis by (auto simp: match_levels.simps split: if_splits)
  qed
qed

lemma book_sound_executeFill:
  assumes "book_sound b"
  shows "book_sound (fst (executeFill b d q limit a))"
proof (cases "d = Buy")
  case True
  obtain r levels rest where
    m: "match_levels a (book_symbol b) d limit (q, ask_levels b, [], order_lookup b, ask_orders b)
          = (r, levels, rest)"
    by (cases "match_levels a (book_symbol b) d limit
                 (q, ask_levels b, [], order_lookup b, ask_orders b)") auto
  from assms have "levels_sound (ask_levels b)" by (simp add: book_sound_def)
  from match_levels_sound [OF this m] have "levels_sound levels" .
  with assms True m show ?thesis
    by (cases rest) (auto simp: executeFill_def book_sound_def)
next
  case False
  obtain r levels rest where
    m: "match_levels a (book_symbol b) d limit (q, bid_levels b, [], order_lookup b, bid_orders b)
          = (r, levels, rest)"
    by (cases "match_levels a (book_symbol b) d limit
                 (q, bid_levels b, [], order_lookup b, bid_orders b)") auto
  from assms have "levels_sound (bid_levels b)" by (simp add: book_sound_def)
  from match_levels_sound [OF this m] have "levels_sound levels" .
  with assms False m show ?thesis
    by (cases rest) (auto simp: executeFill_def book_sound_def)
qed

lemma reachable_sound: "reachable b \<Longrightarrow> book_sound b"
proof (induction rule: reachable.induct)
  case (reachable_new smb)
  show ?case by (simp add: book_sound_def levels_sound_def new_book_def)
qed (simp_all add: book_sound_addOrder book_sound_cancelOrder book_sound_modifyOrder
       book_sound_executeFill)

text \<open>
  C6, as the code has it. In every book reached from an empty one by \<open>addOrder\<close>,
  \<open>cancelOrder\<close>, \<open>modifyOrder\<close> and \<open>executeFill\<close>, every level of either side has a
  total equal to the sum of the remaining quantities of its orders reduced to the 64-bit
  range of the total, hence equal to the sum itself whenever the sum is a 64-bit value,
  and has at least one order.
\<close>

theorem reachable_levels_total_and_nonempty:
  assumes "reachable b"
  shows "\<forall>kl \<in> set (bid_levels b) \<union> set (ask_levels b).
           total_quantity (snd kl) = int64 (sum_list (map remaining_qty (orders (snd kl))))
           \<and> (- 9223372036854775808 \<le> sum_list (map remaining_qty (orders (snd kl)))
                \<and> sum_list (map remaining_qty (orders (snd kl))) < 9223372036854775808
                \<longrightarrow> total_quantity (snd kl) = sum_list (map remaining_qty (orders (snd kl))))
           \<and> orders (snd kl) \<noteq> []"
  using reachable_sound [OF assms]
  by (auto simp: book_sound_def levels_sound_def level_sound_def int64_in_range)

section \<open>The id index and the levels agree\<close>

subsection \<open>orders in a FIFO\<close>

lemma find_order_None: "find_order i os = None \<longleftrightarrow> i \<notin> oid ` set os"
  by (induction os) auto

lemma find_order_Some: "find_order i os = Some x \<Longrightarrow> x \<in> set os \<and> oid x = i"
  by (induction os) (auto split: if_splits)

lemma set_erase_order: "set (erase_order i os) \<subseteq> set os"
  by (induction os) auto

lemma oid_erase_order:
  "distinct (map oid os) \<Longrightarrow> oid ` set (erase_order i os) = oid ` set os - {i}"
proof (induction os)
  case Nil
  show ?case by simp
next
  case (Cons a os)
  then have IH: "oid ` set (erase_order i os) = oid ` set os - {i}" by simp
  show ?case
  proof (cases "oid a = i")
    case True
    with Cons.prems show ?thesis by auto
  next
    case False
    with IH show ?thesis by auto
  qed
qed

lemma erase_order_no_id:
  "distinct (map oid os) \<Longrightarrow> y \<in> set (erase_order i os) \<Longrightarrow> oid y \<noteq> i"
  by (induction os) (auto split: if_splits simp: image_iff)

lemma distinct_erase_order: "distinct (map oid os) \<Longrightarrow> distinct (map oid (erase_order i os))"
proof (induction os)
  case Nil
  show ?case by simp
next
  case (Cons a os)
  have "set (erase_order i os) \<subseteq> set os" by (rule set_erase_order)
  with Cons show ?case by auto
qed

lemma map_oid_set_order_quantity: "map oid (set_order_quantity i q os) = map oid os"
  by (induction os) auto

lemma set_set_order_quantity:
  "y \<in> set (set_order_quantity i q os) \<Longrightarrow> \<exists>x \<in> set os. oid y = oid x \<and> price y = price x \<and> side y = side x"
  by (induction os) (auto split: if_splits)

subsection \<open>level maps\<close>

lemma sorted_keys_distinct: "price_order cmp \<Longrightarrow> sorted_wrt cmp ks \<Longrightarrow> distinct ks"
  by (induction ks) (auto simp: price_order_def)

lemma keys_level_put: "set (map fst (level_put cmp p v m)) = insert p (set (map fst m))"
proof (induction m)
  case Nil
  show ?case by simp
next
  case (Cons kl m)
  then show ?case by (cases kl) (simp add: insert_commute)
qed

lemma sorted_level_put:
  "price_order cmp \<Longrightarrow> sorted_wrt cmp (map fst m) \<Longrightarrow> sorted_wrt cmp (map fst (level_put cmp p v m))"
proof (induction m)
  case Nil
  show ?case by simp
next
  case (Cons kl m)
  obtain k l where kl: "kl = (k, l)" by (cases kl)
  have keys: "set (map fst (level_put cmp p v m)) = insert p (set (map fst m))"
    by (rule keys_level_put)
  from Cons.prems have "cmp = (<) \<or> cmp = (>)" by (simp add: price_order_def)
  then show ?case
  proof
    assume "cmp = (<)"
    with Cons kl keys show ?thesis by (auto simp: price_order_def)
  next
    assume "cmp = (>)"
    with Cons kl keys show ?thesis by (auto simp: price_order_def)
  qed
qed

lemma map_fst_level_store: "map fst (level_store p v m) = map fst m"
  by (induction m) auto

lemma keys_level_erase: "set (map fst (level_erase p m)) \<subseteq> set (map fst m)"
  by (simp add: image_mono set_level_erase)

lemma sorted_level_erase:
  "sorted_wrt cmp (map fst m) \<Longrightarrow> sorted_wrt cmp (map fst (level_erase p m))"
proof (induction m)
  case Nil
  show ?case by simp
next
  case (Cons kl m)
  have "set (level_erase p m) \<subseteq> set m" by (rule set_level_erase)
  with Cons show ?case by (cases kl) auto
qed

lemma distinct_level_erase: "distinct (map fst m) \<Longrightarrow> distinct (map fst (level_erase p m))"
proof (induction m)
  case Nil
  show ?case by simp
next
  case (Cons kl m)
  have "set (map fst (level_erase p m)) \<subseteq> set (map fst m)" by (rule keys_level_erase)
  with Cons show ?case by (cases kl) auto
qed

lemma level_find_None: "level_find p m = None \<longleftrightarrow> p \<notin> set (map fst m)"
  by (induction m) (auto split: if_splits)

lemma level_find_distinct: "distinct (map fst m) \<Longrightarrow> (p, l) \<in> set m \<Longrightarrow> level_find p m = Some l"
proof (induction m)
  case Nil
  then show ?case by simp
next
  case (Cons kl m)
  obtain k l' where kl: "kl = (k, l')" by (cases kl)
  show ?case
  proof (cases "k = p")
    case True
    with Cons.prems kl have "(p, l) \<notin> set m" by (auto simp: image_iff)
    with Cons.prems kl True show ?thesis by simp
  next
    case False
    with Cons kl show ?thesis by simp
  qed
qed

lemma level_find_store_same: "level_find p m = Some l \<Longrightarrow> level_find p (level_store p v m) = Some v"
  by (induction m) (auto split: if_splits)

lemma level_find_store_other: "q \<noteq> p \<Longrightarrow> level_find q (level_store p v m) = level_find q m"
  by (induction m) auto

lemma level_find_erase_other: "q \<noteq> p \<Longrightarrow> level_find q (level_erase p m) = level_find q m"
  by (induction m) auto

lemma set_level_store_distinct:
  "distinct (map fst m) \<Longrightarrow> kl \<in> set (level_store p v m) \<Longrightarrow>
   kl = (p, v) \<or> (kl \<in> set m \<and> fst kl \<noteq> p)"
proof (induction m)
  case Nil
  then show ?case by simp
next
  case (Cons a m)
  obtain k l where a: "a = (k, l)" by (cases a)
  show ?case
  proof (cases "k = p")
    case True
    with Cons.prems a show ?thesis by (auto simp: image_iff)
  next
    case False
    with Cons a show ?thesis by auto
  qed
qed

lemma set_level_erase_distinct:
  "distinct (map fst m) \<Longrightarrow> kl \<in> set (level_erase p m) \<Longrightarrow> kl \<in> set m \<and> fst kl \<noteq> p"
proof (induction m)
  case Nil
  then show ?case by simp
next
  case (Cons a m)
  obtain k l where a: "a = (k, l)" by (cases a)
  show ?case
  proof (cases "k = p")
    case True
    with Cons.prems a show ?thesis by (auto simp: image_iff)
  next
    case False
    with Cons a show ?thesis by auto
  qed
qed


subsection \<open>addOrder keeps the invariant\<close>

lemma level_ok_new_id:
  "level_ok s lk kl \<Longrightarrow> lk i = None \<Longrightarrow> level_ok s (lk(i \<mapsto> v)) kl"
  by (auto simp: level_ok_def)

lemma level_ok_push:
  assumes "\<forall>kl \<in> set m. level_ok s lk kl" and "levels_sound m"
    and "lk (oid order) = None" and "side order = s"
  shows "level_ok s (lk(oid order \<mapsto> \<lparr>loc_side = s, loc_price = price order\<rparr>))
           (price order, push_order order (level_at (price order) m))"
proof (cases "level_find (price order) m")
  case None
  with assms(4) show ?thesis
    by (simp add: level_ok_def push_order_def level_at_def new_level_def)
next
  case (Some l)
  then have mem: "(price order, l) \<in> set m" by (rule level_find_in_set)
  with assms(1) have ok: "level_ok s lk (price order, l)" by blast
  from mem assms(2) have "orders l \<noteq> []" by (auto simp: levels_sound_def level_sound_def)
  moreover from ok assms(3) have "oid order \<notin> oid ` set (orders l)"
    by (auto simp: level_ok_def)
  ultimately show ?thesis using ok Some assms(3,4)
    by (auto simp: level_ok_def push_order_def level_at_def Let_def)
qed

lemma orders_push:
  "orders (push_order order l) = orders l @ [order]"
  by (simp add: push_order_def Let_def)

lemma side_ok_add_same:
  assumes "price_order cmp" and "side_ok cmp s lk m" and "levels_sound m"
    and "lk (oid order) = None" and "side order = s"
  shows "side_ok cmp s (lk(oid order \<mapsto> \<lparr>loc_side = s, loc_price = price order\<rparr>))
           (level_put cmp (price order) (push_order order (level_at (price order) m)) m)"
    (is "side_ok cmp s ?lk' ?m'")
proof -
  from assms(2) have sorted: "sorted_wrt cmp (map fst m)"
    and oks: "\<forall>kl \<in> set m. level_ok s lk kl" and res: "resolves s lk m"
    by (simp_all add: side_ok_def)
  have "sorted_wrt cmp (map fst ?m')" using assms(1) sorted by (rule sorted_level_put)
  moreover have "\<forall>kl \<in> set ?m'. level_ok s ?lk' kl"
  proof
    fix kl
    assume "kl \<in> set ?m'"
    with set_level_put have "kl = (price order, push_order order (level_at (price order) m))
                              \<or> kl \<in> set m" by blast
    then show "level_ok s ?lk' kl"
    proof
      assume "kl = (price order, push_order order (level_at (price order) m))"
      with level_ok_push [OF oks assms(3,4,5)] show ?thesis by simp
    next
      assume "kl \<in> set m"
      with oks assms(4) show ?thesis by (auto intro: level_ok_new_id)
    qed
  qed
  moreover have "resolves s ?lk' ?m'"
    unfolding resolves_def
  proof (intro allI impI)
    fix j p
    assume j: "?lk' j = Some \<lparr>loc_side = s, loc_price = p\<rparr>"
    show "\<exists>l. level_find p ?m' = Some l \<and> j \<in> oid ` set (orders l)"
    proof (cases "j = oid order")
      case True
      with j have "p = price order" by simp
      with True show ?thesis
        by (simp add: level_find_put_same orders_push)
    next
      case False
      with j have "lk j = Some \<lparr>loc_side = s, loc_price = p\<rparr>" by simp
      with res obtain l where l: "level_find p m = Some l" "j \<in> oid ` set (orders l)"
        unfolding resolves_def by blast
      show ?thesis
      proof (cases "p = price order")
        case True
        with l show ?thesis
          by (simp add: level_find_put_same orders_push level_at_def)
      next
        case False
        with l show ?thesis by (simp add: level_find_put_other)
      qed
    qed
  qed
  ultimately show ?thesis by (simp add: side_ok_def)
qed

lemma side_ok_add_other:
  assumes "side_ok cmp s lk m" and "lk i = None" and "s' \<noteq> s"
  shows "side_ok cmp s (lk(i \<mapsto> \<lparr>loc_side = s', loc_price = p\<rparr>)) m"
  using assms by (auto simp: side_ok_def resolves_def intro: level_ok_new_id)

lemma price_order_less: "price_order (<)" and price_order_greater: "price_order (>)"
  by (simp_all add: price_order_def)

lemma book_inv_addOrder:
  assumes "book_inv b"
  shows "book_inv (fst (addOrder b order))"
proof (cases "snd (addOrder b order)")
  case False
  with assms show ?thesis by (auto simp: addOrder_def split: if_splits)
next
  case True
  then have fresh: "order_lookup b (oid order) = None"
    by (auto simp: addOrder_def split: if_splits)
  from assms have sound: "book_sound b" by (simp add: book_inv_def)
  have sound': "book_sound (fst (addOrder b order))" using sound by (rule book_sound_addOrder)
  show ?thesis
  proof (cases "side order")
    case Buy
    with assms fresh sound sound' True
      side_ok_add_same [OF price_order_greater, of Buy "order_lookup b" "bid_levels b" order]
      side_ok_add_other [of "(<)" Sell "order_lookup b" "ask_levels b" "oid order" Buy "price order"]
    show ?thesis
      by (auto simp: book_inv_def addOrder_def book_sound_def split: if_splits)
  next
    case Sell
    with assms fresh sound sound' True
      side_ok_add_same [OF price_order_less, of Sell "order_lookup b" "ask_levels b" order]
      side_ok_add_other [of "(>)" Buy "order_lookup b" "bid_levels b" "oid order" Sell "price order"]
    show ?thesis
      by (auto simp: book_inv_def addOrder_def book_sound_def split: if_splits)
  qed
qed


subsection \<open>cancelOrder keeps the invariant\<close>

lemma level_ok_drop_id:
  assumes "level_ok s lk kl" and "i \<notin> oid ` set (orders (snd kl))"
  shows "level_ok s (lk(i := None)) kl"
  using assms by (auto simp: level_ok_def)

lemma side_ok_cancel_same:
  assumes "price_order cmp" and "side_ok cmp s lk m"
    and "lk i = Some \<lparr>loc_side = s, loc_price = p\<rparr>"
  shows "side_ok cmp s (lk(i := None)) (cancel_in i p m)"
proof -
  from assms(2) have sorted: "sorted_wrt cmp (map fst m)"
    and oks: "\<forall>kl \<in> set m. level_ok s lk kl" and res: "resolves s lk m"
    by (simp_all add: side_ok_def)
  from assms(1) sorted have dist: "distinct (map fst m)" by (rule sorted_keys_distinct)
  from res assms(3) obtain l where l: "level_find p m = Some l" "i \<in> oid ` set (orders l)"
    unfolding resolves_def by blast
  then obtain x where x: "find_order i (orders l) = Some x"
    by (cases "find_order i (orders l)") (auto simp: find_order_None)
  from l(1) have mem: "(p, l) \<in> set m" by (rule level_find_in_set)
  with oks have ok: "level_ok s lk (p, l)" by blast
  define l' where "l' = l\<lparr>total_quantity := int64 (total_quantity l - remaining_qty x),
                          orders := erase_order i (orders l)\<rparr>"
  have m': "cancel_in i p m = (if erase_order i (orders l) = [] then level_erase p m
                               else level_store p l' m)"
    using l(1) x by (simp add: cancel_in_def l'_def Let_def)
  have ids: "oid ` set (erase_order i (orders l)) = oid ` set (orders l) - {i}"
    using ok by (intro oid_erase_order) (simp add: level_ok_def)
  have ok': "level_ok s (lk(i := None)) (p, l')"
    unfolding level_ok_def
  proof (intro conjI ballI)
    show "level_price (snd (p, l')) = fst (p, l')" using ok by (simp add: level_ok_def l'_def)
    show "distinct (map oid (orders (snd (p, l'))))"
      using ok by (simp add: level_ok_def l'_def distinct_erase_order)
  next
    fix y
    assume "y \<in> set (orders (snd (p, l')))"
    then have y: "y \<in> set (erase_order i (orders l))" by (simp add: l'_def)
    with ok have "oid y \<noteq> i" by (auto simp: level_ok_def dest: erase_order_no_id)
    moreover from y set_erase_order have "y \<in> set (orders l)" by blast
    ultimately show "price y = fst (p, l')" "side y = s"
      "(lk(i := None)) (oid y) = Some \<lparr>loc_side = s, loc_price = fst (p, l')\<rparr>"
      using ok by (auto simp: level_ok_def)
  qed
  have others: "level_ok s (lk(i := None)) kl" if "kl \<in> set m" "fst kl \<noteq> p" for kl
  proof -
    from that oks have "level_ok s lk kl" by blast
    moreover from this assms(3) that(2) have "i \<notin> oid ` set (orders (snd kl))"
      by (auto simp: level_ok_def)
    ultimately show ?thesis by (rule level_ok_drop_id)
  qed
  have "sorted_wrt cmp (map fst (cancel_in i p m))"
    using sorted by (simp add: m' sorted_level_erase map_fst_level_store)
  moreover have "\<forall>kl \<in> set (cancel_in i p m). level_ok s (lk(i := None)) kl"
  proof
    fix kl
    assume kl: "kl \<in> set (cancel_in i p m)"
    show "level_ok s (lk(i := None)) kl"
    proof (cases "erase_order i (orders l) = []")
      case True
      with kl m' have "kl \<in> set (level_erase p m)" by simp
      from set_level_erase_distinct [OF dist this] show ?thesis by (simp add: others)
    next
      case False
      with kl m' have "kl \<in> set (level_store p l' m)" by simp
      from set_level_store_distinct [OF dist this] show ?thesis
        by (auto simp: others ok')
    qed
  qed
  moreover have "resolves s (lk(i := None)) (cancel_in i p m)"
    unfolding resolves_def
  proof (intro allI impI)
    fix j q
    assume "(lk(i := None)) j = Some \<lparr>loc_side = s, loc_price = q\<rparr>"
    then have j: "j \<noteq> i" "lk j = Some \<lparr>loc_side = s, loc_price = q\<rparr>"
      by (auto split: if_splits)
    with res obtain l2 where l2: "level_find q m = Some l2" "j \<in> oid ` set (orders l2)"
      unfolding resolves_def by blast
    show "\<exists>l. level_find q (cancel_in i p m) = Some l \<and> j \<in> oid ` set (orders l)"
    proof (cases "q = p")
      case True
      with l2 l have "j \<in> oid ` set (orders l)" by simp
      with j(1) ids have in': "j \<in> oid ` set (erase_order i (orders l))" by simp
      then have "erase_order i (orders l) \<noteq> []" by auto
      with m' True l(1) in' show ?thesis
        by (simp add: level_find_store_same l'_def)
    next
      case False
      with l2 m' show ?thesis
        by (simp add: level_find_store_other level_find_erase_other)
    qed
  qed
  ultimately show ?thesis by (simp add: side_ok_def)
qed

lemma side_ok_cancel_other:
  assumes "side_ok cmp s lk m" and "lk i = Some \<lparr>loc_side = s', loc_price = p\<rparr>" and "s' \<noteq> s"
  shows "side_ok cmp s (lk(i := None)) m"
proof -
  have "level_ok s (lk(i := None)) kl" if "kl \<in> set m" for kl
  proof -
    from that assms(1) have "level_ok s lk kl" by (simp add: side_ok_def)
    moreover from this assms(2,3) have "i \<notin> oid ` set (orders (snd kl))"
      by (auto simp: level_ok_def)
    ultimately show ?thesis by (rule level_ok_drop_id)
  qed
  with assms show ?thesis
    by (auto simp: side_ok_def resolves_def split: if_splits)
qed

lemma book_inv_cancelOrder:
  assumes "book_inv b"
  shows "book_inv (fst (cancelOrder b i))"
proof (cases "order_lookup b i")
  case None
  with assms show ?thesis by (simp add: cancelOrder_def)
next
  case (Some loc)
  from assms have sound': "book_sound (fst (cancelOrder b i))"
    by (simp add: book_inv_def book_sound_cancelOrder)
  show ?thesis
  proof (cases "loc_side loc")
    case Buy
    then have loc: "loc = \<lparr>loc_side = Buy, loc_price = loc_price loc\<rparr>" by simp
    with Some have lk: "order_lookup b i = Some \<lparr>loc_side = Buy, loc_price = loc_price loc\<rparr>"
      by simp
    from assms sound' Some Buy
      side_ok_cancel_same [of "(>)" Buy "order_lookup b" "bid_levels b" i "loc_price loc"]
      side_ok_cancel_other [of "(<)" Sell "order_lookup b" "ask_levels b" i Buy "loc_price loc"]
      price_order_greater
    show ?thesis
      by (auto simp: book_inv_def cancelOrder_def Let_def book_sound_def)
  next
    case Sell
    then have loc: "loc = \<lparr>loc_side = Sell, loc_price = loc_price loc\<rparr>" by simp
    with Some have lk: "order_lookup b i = Some \<lparr>loc_side = Sell, loc_price = loc_price loc\<rparr>"
      by simp
    from assms sound' Some Sell
      side_ok_cancel_same [of "(<)" Sell "order_lookup b" "ask_levels b" i "loc_price loc"]
      side_ok_cancel_other [of "(>)" Buy "order_lookup b" "bid_levels b" i Sell "loc_price loc"]
      price_order_less
    show ?thesis
      by (auto simp: book_inv_def cancelOrder_def Let_def book_sound_def)
  qed
qed


subsection \<open>modifyOrder keeps the invariant\<close>

lemma side_ok_requantify:
  assumes "side_ok cmp s lk m"
  shows "side_ok cmp s lk (requantify_in i p q d m)"
proof (cases "level_find p m")
  case None
  with assms show ?thesis by (simp add: requantify_in_def)
next
  case (Some l)
  define l' where "l' = l\<lparr>orders := set_order_quantity i q (orders l),
                          total_quantity := int64 (total_quantity l + d)\<rparr>"
  from Some have m': "requantify_in i p q d m = level_store p l' m"
    by (simp add: requantify_in_def l'_def Let_def)
  from assms have sorted: "sorted_wrt cmp (map fst m)"
    and oks: "\<forall>kl \<in> set m. level_ok s lk kl" and res: "resolves s lk m"
    by (simp_all add: side_ok_def)
  from Some have "(p, l) \<in> set m" by (rule level_find_in_set)
  with oks have ok: "level_ok s lk (p, l)" by blast
  have ok': "level_ok s lk (p, l')"
    unfolding level_ok_def
  proof (intro conjI ballI)
    show "level_price (snd (p, l')) = fst (p, l')" using ok by (simp add: level_ok_def l'_def)
    show "distinct (map oid (orders (snd (p, l'))))"
      using ok by (simp add: level_ok_def l'_def map_oid_set_order_quantity)
  next
    fix y
    assume "y \<in> set (orders (snd (p, l')))"
    then have "y \<in> set (set_order_quantity i q (orders l))" by (simp add: l'_def)
    from set_set_order_quantity [OF this] obtain x where
      "x \<in> set (orders l)" "oid y = oid x" "price y = price x" "side y = side x" by blast
    with ok show "price y = fst (p, l')" "side y = s"
      "lk (oid y) = Some \<lparr>loc_side = s, loc_price = fst (p, l')\<rparr>"
      by (auto simp: level_ok_def)
  qed
  have "\<forall>kl \<in> set (level_store p l' m). level_ok s lk kl"
    using set_level_store [of p l' m] oks ok' by auto
  moreover have "resolves s lk (level_store p l' m)"
    unfolding resolves_def
  proof (intro allI impI)
    fix j r
    assume "lk j = Some \<lparr>loc_side = s, loc_price = r\<rparr>"
    with res obtain l2 where l2: "level_find r m = Some l2" "j \<in> oid ` set (orders l2)"
      unfolding resolves_def by blast
    have "map oid (orders l') = map oid (orders l)"
      by (simp add: l'_def map_oid_set_order_quantity)
    then have "set (map oid (orders l')) = set (map oid (orders l))" by simp
    then have "oid ` set (orders l') = oid ` set (orders l)" by simp
    with l2 Some show "\<exists>l. level_find r (level_store p l' m) = Some l \<and> j \<in> oid ` set (orders l)"
      by (cases "r = p") (auto simp: level_find_store_same level_find_store_other)
  qed
  ultimately show ?thesis using sorted by (simp add: side_ok_def m' map_fst_level_store)
qed

lemma book_inv_modifyOrder:
  assumes "book_inv b"
  shows "book_inv (fst (modifyOrder b i p q now))"
proof -
  have sound': "book_sound (fst (modifyOrder b i p q now))"
    using assms by (simp add: book_inv_def book_sound_modifyOrder)
  show ?thesis
  proof (cases "order_lookup b i")
    case None
    with assms show ?thesis by (simp add: modifyOrder_def)
  next
    case (Some loc)
    show ?thesis
    proof (cases "deref b loc i")
      case None
      with Some assms show ?thesis by (simp add: modifyOrder_def)
    next
      case old: (Some old)
      show ?thesis
      proof (cases "p > 0 \<and> p \<noteq> loc_price loc")
        case True
        with Some old assms show ?thesis
          by (simp add: modifyOrder_def Let_def book_inv_addOrder book_inv_cancelOrder)
      next
        case False
        with Some old assms sound'
          side_ok_requantify [of "(>)" Buy "order_lookup b" "bid_levels b" i "loc_price loc" q
                                 "q - quantity old"]
          side_ok_requantify [of "(<)" Sell "order_lookup b" "ask_levels b" i "loc_price loc" q
                                 "q - quantity old"]
        show ?thesis
          by (auto simp: modifyOrder_def Let_def book_inv_def book_sound_def split: if_splits)
      qed
    qed
  qed
qed

subsection \<open>executeFill keeps the invariant\<close>

lemma lookup_shrinks_refl: "lookup_shrinks s lk lk"
  by (simp add: lookup_shrinks_def)

lemma lookup_shrinks_trans:
  assumes "lookup_shrinks s lk lk1" and "lookup_shrinks s lk1 lk2"
  shows "lookup_shrinks s lk lk2"
  unfolding lookup_shrinks_def
proof
  fix j
  from assms(1) have a: "lk1 j = lk j \<or> (lk1 j = None \<and> map_option loc_side (lk j) = Some s)"
    by (simp add: lookup_shrinks_def)
  from assms(2) have b: "lk2 j = lk1 j \<or> (lk2 j = None \<and> map_option loc_side (lk1 j) = Some s)"
    by (simp add: lookup_shrinks_def)
  show "lk2 j = lk j \<or> (lk2 j = None \<and> map_option loc_side (lk j) = Some s)"
  proof (cases "lk2 j = lk1 j")
    case True
    with a show ?thesis by auto
  next
    case False
    with b have c: "lk2 j = None" "map_option loc_side (lk1 j) = Some s" by simp_all
    from c(2) have "lk1 j \<noteq> None" by auto
    with a have "lk1 j = lk j" by auto
    with c show ?thesis by simp
  qed
qed

lemma apply_fill_fields:
  "oid (apply_fill x q) = oid x" "price (apply_fill x q) = price x" "side (apply_fill x q) = side x"
  by (simp_all add: apply_fill_def Let_def)

lemma fill_head_passive:
  assumes "passive_ok s lk ((k, l) # ls)" and "orders l \<noteq> []"
    and "fill_head a smb d (q, l, fs, lk, so) = (q', l', fs', lk', so')"
  shows "passive_ok s lk' ((k, l') # ls) \<and> lookup_shrinks s lk lk'"
proof -
  from assms(2) obtain x xs where os: "orders l = x # xs" by (cases "orders l") auto
  define fq where "fq = min q (remaining_qty x)"
  define x' where "x' = apply_fill x fq"
  from assms(1) have dist: "k \<notin> fst ` set ls" "distinct (map fst ls)"
    and ok: "level_ok s lk (k, l)" and oks: "\<forall>kl \<in> set ls. level_ok s lk kl"
    and res: "resolves s lk ((k, l) # ls)"
    by (simp_all add: passive_ok_def)
  from ok os have dx: "distinct (map oid (x # xs))" by (simp add: level_ok_def)
  then have "oid x \<notin> oid ` set xs" by simp
  then have x2: "\<forall>y \<in> set xs. oid y \<noteq> oid x" by (metis image_eqI)
  from ok os dx x2 have x: "lk (oid x) = Some \<lparr>loc_side = s, loc_price = k\<rparr>"
    "\<forall>y \<in> set xs. oid y \<noteq> oid x" "distinct (map oid xs)"
    by (simp_all add: level_ok_def)
  show ?thesis
  proof (cases "is_filled x'")
    case False
    with assms(3) os have eq: "lk' = lk" "orders l' = x' # xs" "level_price l' = level_price l"
      by (auto simp: fill_head_def Let_def x'_def fq_def)
    have "level_ok s lk (k, l')"
      using ok os eq by (auto simp: level_ok_def x'_def apply_fill_fields)
    moreover have "resolves s lk ((k, l') # ls)"
      using res os eq unfolding resolves_def
      by (auto simp: x'_def apply_fill_fields split: if_splits)
    ultimately show ?thesis using dist oks eq
      by (simp add: passive_ok_def lookup_shrinks_refl)
  next
    case True
    with assms(3) os have eq: "lk' = lk(oid x := None)" "orders l' = xs"
      "level_price l' = level_price l"
      by (auto simp: fill_head_def Let_def x'_def fq_def apply_fill_fields)
    have "level_ok s lk' (k, l')"
      using ok os eq x by (auto simp: level_ok_def)
    moreover have "level_ok s lk' kl" if "kl \<in> set ls" for kl
    proof -
      from that oks have kl: "level_ok s lk kl" by blast
      from that dist have "fst kl \<noteq> k" by auto
      with kl x(1) have "oid x \<notin> oid ` set (orders (snd kl))"
        by (auto simp: level_ok_def)
      with kl eq(1) show ?thesis by (simp add: level_ok_drop_id)
    qed
    moreover have "resolves s lk' ((k, l') # ls)"
      unfolding resolves_def
    proof (intro allI impI)
      fix j p
      assume "lk' j = Some \<lparr>loc_side = s, loc_price = p\<rparr>"
      with eq(1) have j: "j \<noteq> oid x" "lk j = Some \<lparr>loc_side = s, loc_price = p\<rparr>"
        by (auto split: if_splits)
      with res obtain l2 where "level_find p ((k, l) # ls) = Some l2" "j \<in> oid ` set (orders l2)"
        unfolding resolves_def by blast
      with j(1) os eq(2)
      show "\<exists>l. level_find p ((k, l') # ls) = Some l \<and> j \<in> oid ` set (orders l)"
        by (auto split: if_splits)
    qed
    moreover have "lookup_shrinks s lk lk'"
      using eq(1) x(1) by (auto simp: lookup_shrinks_def)
    ultimately show ?thesis using dist by (simp add: passive_ok_def)
  qed
qed

lemma match_level_passive:
  "passive_ok s lk ((k, l) # ls) \<Longrightarrow>
   match_level a smb d (q, l, fs, lk, so) = (q', l', fs', lk', so') \<Longrightarrow>
   passive_ok s lk' ((k, l') # ls) \<and> lookup_shrinks s lk lk'"
proof (induction a smb d "(q, l, fs, lk, so)" arbitrary: q l fs lk so rule: match_level.induct)
  case (1 a smb d q l fs lk so)
  show ?case
  proof (cases "q > 0 \<and> orders l \<noteq> []")
    case True
    obtain q1 l1 fs1 lk1 so1 where
      step: "fill_head a smb d (q, l, fs, lk, so) = (q1, l1, fs1, lk1, so1)"
      by (cases "fill_head a smb d (q, l, fs, lk, so)") auto
    from True have "orders l \<noteq> []" by simp
    from fill_head_passive [OF "1.prems"(1) this step]
    have one: "passive_ok s lk1 ((k, l1) # ls)" "lookup_shrinks s lk lk1" by simp_all
    from True "1.prems"(2) step
    have rest: "match_level a smb d (q1, l1, fs1, lk1, so1) = (q', l', fs', lk', so')"
      by (simp add: match_level.simps)
    from "1.hyps" [OF True step one(1) rest]
    have two: "passive_ok s lk' ((k, l') # ls)" "lookup_shrinks s lk1 lk'" by simp_all
    from lookup_shrinks_trans [OF one(2) two(2)] two(1) show ?thesis by simp
  next
    case False
    with "1.prems" have "l' = l" "lk' = lk" by (simp_all add: match_level.simps)
    with "1.prems"(1) show ?thesis by (simp add: lookup_shrinks_refl)
  qed
qed


lemma passive_ok_drop_empty:
  assumes "passive_ok s lk ((k, l) # ls)" and "orders l = []"
  shows "passive_ok s lk ls"
proof -
  from assms(1) have res: "resolves s lk ((k, l) # ls)" by (simp add: passive_ok_def)
  have "resolves s lk ls"
    unfolding resolves_def
  proof (intro allI impI)
    fix j p
    assume "lk j = Some \<lparr>loc_side = s, loc_price = p\<rparr>"
    with res obtain l2 where "level_find p ((k, l) # ls) = Some l2" "j \<in> oid ` set (orders l2)"
      unfolding resolves_def by blast
    with assms(2) show "\<exists>l. level_find p ls = Some l \<and> j \<in> oid ` set (orders l)"
      by (auto split: if_splits)
  qed
  with assms(1) show ?thesis by (simp add: passive_ok_def)
qed

lemma consume_level_passive:
  assumes "passive_ok s lk m" and "m \<noteq> []"
    and "consume_level a smb d (q, m, fs, lk, so) = (q', m', fs', lk', so')"
  shows "passive_ok s lk' m' \<and> lookup_shrinks s lk lk'
         \<and> (sorted_wrt cmp (map fst m) \<longrightarrow> sorted_wrt cmp (map fst m'))"
proof -
  from assms(2) obtain k l ls where m: "m = (k, l) # ls" by (cases m) auto
  obtain r l1 fs1 lk1 so1 where
    inner: "match_level a smb d (q, l, fs, lk, so) = (r, l1, fs1, lk1, so1)"
    by (cases "match_level a smb d (q, l, fs, lk, so)") auto
  from assms(1) m have "passive_ok s lk ((k, l) # ls)" by simp
  from match_level_passive [OF this inner]
  have one: "passive_ok s lk1 ((k, l1) # ls)" "lookup_shrinks s lk lk1" by simp_all
  from assms(3) m inner have res: "lk' = lk1"
    "m' = (if orders l1 = [] then ls else (k, l1) # ls)"
    by (auto simp: consume_level_def)
  show ?thesis
  proof (cases "orders l1 = []")
    case True
    with passive_ok_drop_empty [OF one(1)] one(2) res m show ?thesis by simp
  next
    case False
    with one res m show ?thesis by simp
  qed
qed

lemma match_levels_passive:
  "passive_ok s lk m \<Longrightarrow> sorted_wrt cmp (map fst m) \<Longrightarrow>
   match_levels a smb d limit (q, m, fs, lk, so) = (q', m', fs', lk', so') \<Longrightarrow>
   passive_ok s lk' m' \<and> lookup_shrinks s lk lk' \<and> sorted_wrt cmp (map fst m')"
proof (induction a smb d limit "(q, m, fs, lk, so)" arbitrary: q m fs lk so
       rule: match_levels.induct)
  case (1 a smb d limit q m fs lk so)
  show ?case
  proof (cases "q > 0 \<and> m \<noteq> [] \<and> \<not> gate_stops d limit (snd (hd m))")
    case True
    obtain q1 m1 fs1 lk1 so1 where
      step: "consume_level a smb d (q, m, fs, lk, so) = (q1, m1, fs1, lk1, so1)"
      by (cases "consume_level a smb d (q, m, fs, lk, so)") auto
    from True have ne: "m \<noteq> []" by simp
    from consume_level_passive [OF "1.prems"(1) ne step, of cmp] "1.prems"(2)
    have one: "passive_ok s lk1 m1" "lookup_shrinks s lk lk1" "sorted_wrt cmp (map fst m1)"
      by simp_all
    from True "1.prems"(3) step
    have rest: "match_levels a smb d limit (q1, m1, fs1, lk1, so1) = (q', m', fs', lk', so')"
      by (simp add: match_levels.simps)
    from True have c1: "q > 0 \<and> m \<noteq> []" and c2: "\<not> gate_stops d limit (snd (hd m))"
      by simp_all
    from "1.hyps" [OF c1 c2 step one(1) one(3) rest]
    have two: "passive_ok s lk' m'" "lookup_shrinks s lk1 lk'" "sorted_wrt cmp (map fst m')"
      by simp_all
    from lookup_shrinks_trans [OF one(2) two(2)] two show ?thesis by simp
  next
    case False
    with "1.prems"(3) have "m' = m" "lk' = lk"
      by (auto simp: match_levels.simps split: if_splits)
    with "1.prems" show ?thesis by (simp add: lookup_shrinks_refl)
  qed
qed

lemma side_ok_passive:
  "price_order cmp \<Longrightarrow> side_ok cmp s lk m \<Longrightarrow> passive_ok s lk m"
  by (simp add: side_ok_def passive_ok_def sorted_keys_distinct)

lemma side_ok_shrink_other:
  assumes "side_ok cmp s lk m" and "lookup_shrinks s' lk lk'" and "s' \<noteq> s"
  shows "side_ok cmp s lk' m"
proof -
  have either: "lk' j = lk j \<or> (lk' j = None \<and> map_option loc_side (lk j) = Some s')" for j
    using assms(2) by (simp add: lookup_shrinks_def)
  have same: "lk' j = lk j" if "lk j = Some \<lparr>loc_side = s, loc_price = p\<rparr>" for j p
    using either [of j] assms(3) that by auto
  have orig: "lk j = Some \<lparr>loc_side = s, loc_price = p\<rparr>"
    if "lk' j = Some \<lparr>loc_side = s, loc_price = p\<rparr>" for j p
    using either [of j] that by auto
  from assms(1) same have "\<forall>kl \<in> set m. level_ok s lk' kl"
    by (auto simp: side_ok_def level_ok_def)
  moreover from assms(1) orig have "resolves s lk' m"
    unfolding side_ok_def resolves_def by blast
  ultimately show ?thesis using assms(1) by (simp add: side_ok_def)
qed

lemma book_inv_executeFill:
  assumes "book_inv b"
  shows "book_inv (fst (executeFill b d q limit a))"
proof -
  from assms have sound': "book_sound (fst (executeFill b d q limit a))"
    by (simp add: book_inv_def book_sound_executeFill)
  from assms have bids: "side_ok (>) Buy (order_lookup b) (bid_levels b)"
    and asks: "side_ok (<) Sell (order_lookup b) (ask_levels b)"
    by (simp_all add: book_inv_def)
  show ?thesis
  proof (cases "d = Buy")
    case True
    obtain r m' fs' lk' so' where
      m: "match_levels a (book_symbol b) d limit
            (q, ask_levels b, [], order_lookup b, ask_orders b) = (r, m', fs', lk', so')"
      by (cases "match_levels a (book_symbol b) d limit
                   (q, ask_levels b, [], order_lookup b, ask_orders b)") auto
    from asks have "sorted_wrt (<) (map fst (ask_levels b))" by (simp add: side_ok_def)
    from match_levels_passive [OF side_ok_passive [OF price_order_less asks] this m]
    have res: "passive_ok Sell lk' m'" "lookup_shrinks Sell (order_lookup b) lk'"
      "sorted_wrt (<) (map fst m')" by simp_all
    from res(1,3) have "side_ok (<) Sell lk' m'" by (simp add: side_ok_def passive_ok_def)
    moreover from side_ok_shrink_other [OF bids res(2)]
    have "side_ok (>) Buy lk' (bid_levels b)" by simp
    ultimately show ?thesis using sound' True m
      by (simp add: book_inv_def executeFill_def book_sound_def)
  next
    case False
    obtain r m' fs' lk' so' where
      m: "match_levels a (book_symbol b) d limit
            (q, bid_levels b, [], order_lookup b, bid_orders b) = (r, m', fs', lk', so')"
      by (cases "match_levels a (book_symbol b) d limit
                   (q, bid_levels b, [], order_lookup b, bid_orders b)") auto
    from bids have "sorted_wrt (>) (map fst (bid_levels b))" by (simp add: side_ok_def)
    from match_levels_passive [OF side_ok_passive [OF price_order_greater bids] this m]
    have res: "passive_ok Buy lk' m'" "lookup_shrinks Buy (order_lookup b) lk'"
      "sorted_wrt (>) (map fst m')" by simp_all
    from res(1,3) have "side_ok (>) Buy lk' m'" by (simp add: side_ok_def passive_ok_def)
    moreover from side_ok_shrink_other [OF asks res(2)]
    have "side_ok (<) Sell lk' (ask_levels b)" by simp
    ultimately show ?thesis using sound' False m
      by (simp add: book_inv_def executeFill_def book_sound_def)
  qed
qed

lemma reachable_book_inv: "reachable b \<Longrightarrow> book_inv b"
proof (induction rule: reachable.induct)
  case (reachable_new smb)
  show ?case
    by (simp add: book_inv_def book_sound_def levels_sound_def side_ok_def resolves_def
                  new_book_def)
qed (simp_all add: book_inv_addOrder book_inv_cancelOrder book_inv_modifyOrder
       book_inv_executeFill)


section \<open>Worked books\<close>

text \<open>The definitions to unfold for a concrete book, and two of the books written out.\<close>

lemmas book_eval = int64_def mk_order_def new_book_def addOrder_def isValidOrder_def
  remaining_qty_def
  level_at_def push_order_def new_level_def executeFill_def match_levels.simps
  match_level.simps consume_level_def fill_head_def gate_stops_def apply_fill_def
  is_filled_def mk_fill_def Let_def

lemma partly_filled_book_eq: "partly_filled_book = \<lparr>book_symbol = ''AAPL'', bid_levels = [],
      ask_levels = [(150, \<lparr>level_price = 150, total_quantity = 40,
         orders = [ex_sell1\<lparr>filled_qty := 60, status := PartiallyFilled\<rparr>]\<rparr>)],
      order_lookup = [1 \<mapsto> \<lparr>loc_side = Sell, loc_price = 150\<rparr>],
      bid_orders = {}, ask_orders = {1}\<rparr>"
  by (simp add: partly_filled_book_def ex_sell1_def book_eval)

lemma reachable_partly_filled_book: "reachable partly_filled_book"
  unfolding partly_filled_book_def by (intro reachable.intros)

theorem reachable_levels_total_and_nonempty_witness:
  "reachable partly_filled_book
   \<and> bid_levels partly_filled_book = []
   \<and> map (total_quantity \<circ> snd) (ask_levels partly_filled_book) = [40]
   \<and> map (map remaining_qty \<circ> orders \<circ> snd) (ask_levels partly_filled_book) = [[40]]"
  using reachable_levels_total_and_nonempty [OF reachable_partly_filled_book]
    reachable_partly_filled_book
  by (simp add: partly_filled_book_eq ex_sell1_def mk_order_def remaining_qty_def)


text \<open>
  C6 does not hold as stated. Two sell orders of 9223372036854775807 and of 1 are added
  at the same price, each with a positive remaining quantity. The level's total is
  -9223372036854775808, and the remaining quantities of its orders sum to
  9223372036854775808.
\<close>

theorem level_total_leaves_the_sum:
  "reachable overflow_book
   \<and> map (map remaining_qty \<circ> orders \<circ> snd) (ask_levels overflow_book)
       = [[9223372036854775807, 1]]
   \<and> map (sum_list \<circ> map remaining_qty \<circ> orders \<circ> snd) (ask_levels overflow_book)
       = [9223372036854775808]
   \<and> map (total_quantity \<circ> snd) (ask_levels overflow_book) = [- 9223372036854775808]"
proof -
  have "reachable overflow_book"
    unfolding overflow_book_def by (intro reachable.intros)
  moreover have "ask_levels overflow_book =
      [(150, \<lparr>level_price = 150, total_quantity = - 9223372036854775808,
              orders = [max_sell, one_sell]\<rparr>)]"
    by (simp add: overflow_book_def max_sell_def one_sell_def book_eval)
  ultimately show ?thesis
    by (simp add: max_sell_def one_sell_def mk_order_def remaining_qty_def)
qed

section \<open>Resting orders and the id index\<close>

text \<open>
  In a reachable book every locator of the id index names an order of the level it points
  at, and every resting order is indexed under its side and price.
\<close>

lemma book_inv_resolves:
  assumes "book_inv b" and "order_lookup b i = Some loc"
  shows "\<exists>x. deref b loc i = Some x \<and> oid x = i"
proof -
  have loc: "loc = \<lparr>loc_side = loc_side loc, loc_price = loc_price loc\<rparr>" by simp
  from assms(1) have "resolves (loc_side loc) (order_lookup b) (side_levels b (loc_side loc))"
    by (cases "loc_side loc") (simp_all add: book_inv_def side_ok_def side_levels_def)
  with assms(2) loc obtain l where
    l: "level_find (loc_price loc) (side_levels b (loc_side loc)) = Some l"
       "i \<in> oid ` set (orders l)"
    unfolding resolves_def by metis
  from l(2) obtain x where "find_order i (orders l) = Some x"
    by (cases "find_order i (orders l)") (auto simp: find_order_None)
  with l(1) find_order_Some [OF this] show ?thesis by (simp add: deref_def)
qed

lemma reachable_resolves:
  assumes "reachable b" and "order_lookup b i = Some loc"
  shows "\<exists>x. deref b loc i = Some x \<and> oid x = i"
  using book_inv_resolves [OF reachable_book_inv [OF assms(1)] assms(2)] .

lemma book_inv_indexed:
  assumes "book_inv b" and "level_find p (side_levels b s) = Some l" and "x \<in> set (orders l)"
  shows "order_lookup b (oid x) = Some \<lparr>loc_side = s, loc_price = p\<rparr>"
proof -
  from assms(2) have "(p, l) \<in> set (side_levels b s)" by (rule level_find_in_set)
  with assms(1) have "level_ok s (order_lookup b) (p, l)"
    by (cases s) (simp_all add: book_inv_def side_ok_def side_levels_def)
  with assms(3) show ?thesis by (simp add: level_ok_def)
qed

section \<open>A price-changing modify that cannot re-add\<close>

text \<open>
  C9. For an order resting in a reachable book, \<open>modifyOrder\<close> with a positive new
  price different from the order's price is \<open>cancelOrder\<close> followed by \<open>addOrder\<close> of
  the order with the new price, the new quantity if positive, and a fresh timestamp.
  With a positive new quantity not above the filled count the answer is false; and
  whenever the answer is false the book is the one \<open>cancelOrder\<close> left: the id is not
  in the id index and no level of either side holds an order with it.
\<close>

theorem modifyOrder_requeue:
  assumes "reachable b" and "order_lookup b i = Some loc" and "deref b loc i = Some old"
    and "new_price > 0" and "new_price \<noteq> loc_price loc"
  shows "modifyOrder b i new_price new_quantity now =
           addOrder (fst (cancelOrder b i))
             (old\<lparr>price := new_price,
                  quantity := (if new_quantity > 0 then new_quantity else quantity old),
                  timestamp := now\<rparr>)
       \<and> (new_quantity > 0 \<and> new_quantity \<le> filled_qty old \<longrightarrow>
            \<not> snd (modifyOrder b i new_price new_quantity now))
       \<and> (\<not> snd (modifyOrder b i new_price new_quantity now) \<longrightarrow>
            fst (modifyOrder b i new_price new_quantity now) = fst (cancelOrder b i)
            \<and> order_lookup (fst (modifyOrder b i new_price new_quantity now)) i = None
            \<and> (\<forall>s p l. level_find p (side_levels (fst (modifyOrder b i new_price new_quantity now)) s)
                          = Some l \<longrightarrow> i \<notin> oid ` set (orders l)))"
proof -
  let ?b' = "fst (cancelOrder b i)"
  let ?new = "old\<lparr>price := new_price,
                  quantity := (if new_quantity > 0 then new_quantity else quantity old),
                  timestamp := now\<rparr>"
  have eq: "modifyOrder b i new_price new_quantity now = addOrder ?b' ?new"
    using assms(2-5) by (simp add: modifyOrder_def Let_def)
  have gone: "order_lookup ?b' i = None"
    using assms(2) by (simp add: cancelOrder_def Let_def)
  from assms(1) have "book_inv ?b'" by (simp add: reachable_book_inv book_inv_cancelOrder)
  with gone have absent: "i \<notin> oid ` set (orders l)"
    if "level_find p (side_levels ?b' s) = Some l" for s p l
    using book_inv_indexed [OF _ that] by force
  have fails: "\<not> snd (addOrder ?b' ?new)" if "new_quantity > 0 \<and> new_quantity \<le> filled_qty old"
    using that by (simp add: addOrder_def isValidOrder_def remaining_qty_def)
  have same: "fst (addOrder ?b' ?new) = ?b'" if "\<not> snd (addOrder ?b' ?new)"
    using that by (auto simp: addOrder_def split: if_splits)
  from eq gone absent fails same show ?thesis by auto
qed

theorem modifyOrder_requeue_witness:
  "reachable partly_filled_book
   \<and> order_lookup partly_filled_book 1 = Some \<lparr>loc_side = Sell, loc_price = 150\<rparr>
   \<and> deref partly_filled_book \<lparr>loc_side = Sell, loc_price = 150\<rparr> 1
       = Some (ex_sell1\<lparr>filled_qty := 60, status := PartiallyFilled\<rparr>)
   \<and> \<not> snd (modifyOrder partly_filled_book 1 151 50 5)
   \<and> order_lookup (fst (modifyOrder partly_filled_book 1 151 50 5)) 1 = None
   \<and> ask_levels (fst (modifyOrder partly_filled_book 1 151 50 5)) = []
   \<and> bid_levels (fst (modifyOrder partly_filled_book 1 151 50 5)) = []"
proof -
  have h: "order_lookup partly_filled_book 1 = Some \<lparr>loc_side = Sell, loc_price = 150\<rparr>"
    "deref partly_filled_book \<lparr>loc_side = Sell, loc_price = 150\<rparr> 1
       = Some (ex_sell1\<lparr>filled_qty := 60, status := PartiallyFilled\<rparr>)"
    "(151::real) > 0" "151 \<noteq> loc_price \<lparr>loc_side = Sell, loc_price = 150\<rparr>"
    by (simp_all add: partly_filled_book_eq deref_def side_levels_def ex_sell1_def mk_order_def)
  have c: "ask_levels (fst (cancelOrder partly_filled_book 1)) = []"
    "bid_levels (fst (cancelOrder partly_filled_book 1)) = []"
    by (simp_all add: partly_filled_book_eq cancelOrder_def cancel_in_def ex_sell1_def
          mk_order_def Let_def)
  note r = modifyOrder_requeue [OF reachable_partly_filled_book h, of 50 5]
  from r [THEN conjunct2, THEN conjunct1]
  have f: "\<not> snd (modifyOrder partly_filled_book 1 151 50 5)"
    by (simp add: ex_sell1_def mk_order_def)
  with r [THEN conjunct2, THEN conjunct2] have "fst (modifyOrder partly_filled_book 1 151 50 5) = fst (cancelOrder partly_filled_book 1)"
    "order_lookup (fst (modifyOrder partly_filled_book 1 151 50 5)) 1 = None"
    by blast+
  with f c h reachable_partly_filled_book show ?thesis by simp
qed

section \<open>An in-place modify below the filled count\<close>

text \<open>
  C3. In the book whose order 1 (sell 100 at 150) has 60 filled, \<open>modifyOrder\<close> with the
  price unchanged and the new quantity 50 answers true and changes the book: the order
  rests with quantity 50 and filled count 60, its level has the total -10, and a buy of
  5 against it is then given a fill of quantity -10.
\<close>

theorem modify_below_filled_is_applied:
  "order_lookup partly_filled_book 1 = Some \<lparr>loc_side = Sell, loc_price = 150\<rparr>
   \<and> map filled_qty (orders (snd (hd (ask_levels partly_filled_book)))) = [60]
   \<and> snd (modifyOrder partly_filled_book 1 0 50 5)
   \<and> fst (modifyOrder partly_filled_book 1 0 50 5) \<noteq> partly_filled_book
   \<and> ask_levels (fst (modifyOrder partly_filled_book 1 0 50 5)) =
       [(150, \<lparr>level_price = 150, total_quantity = -10,
               orders = [ex_sell1\<lparr>quantity := 50, filled_qty := 60,
                                  status := PartiallyFilled\<rparr>]\<rparr>)]
   \<and> map fill_quantity
         (snd (executeFill (fst (modifyOrder partly_filled_book 1 0 50 5)) Buy 5 0 8)) = [-10]"
  by (simp add: partly_filled_book_eq modifyOrder_def deref_def side_levels_def
        requantify_in_def ex_sell1_def book_eval)

section \<open>Orders with nothing to fill\<close>

text \<open>
  C4 does not hold as stated. The engine has no risk manager, the order callback
  installed and one sell order of 100 at 150 resting. A buy order of quantity 0 is
  reported with status \<open>New\<close>; a buy order of 100 at the price -1 is filled in full at
  150 and reported \<open>Filled\<close>.
\<close>

theorem invalid_order_not_rejected:
  "quantity zero_qty \<le> 0
   \<and> snd (snd (submitOrder listening_engine 0 zero_qty)) = [OrderEvent zero_qty]
   \<and> status zero_qty = New
   \<and> price ex_negative_price < 0
   \<and> map fill_quantity (fst (snd (submitOrder listening_engine 0 ex_negative_price))) = [100]
   \<and> map fill_price (fst (snd (submitOrder listening_engine 0 ex_negative_price))) = [150]
   \<and> snd (snd (submitOrder listening_engine 0 ex_negative_price)) =
       [OrderEvent (ex_negative_price\<lparr>filled_qty := 100, status := Filled\<rparr>)]"
  by (simp add: zero_qty_def listening_engine_def ex_sell1_def ex_negative_price_def book_eval
        effective_limit_price_def submitOrder_def new_engine_def process_order_def
        getOrCreateOrderBook_def matchOrder_def cancel_def notifyOrder_def notifyFill_def)

text \<open>
  C4, as the code has it. An order whose remaining quantity is zero or negative (for a
  new order, its quantity) gets no fill; the order callback is handed the order with
  status \<open>Rejected\<close> when a configured risk manager rejects it and the order as
  submitted otherwise; every existing book is left as it was, and an empty book is
  created for a symbol without one unless the risk manager rejects; no fill is counted.
\<close>

theorem submitOrder_nothing_to_fill:
  assumes "remaining_qty order \<le> 0"
  shows "fst (snd (submitOrder e now order)) = []
       \<and> snd (snd (submitOrder e now order)) =
           notifyOrder e (case risk_manager e of
                            None \<Rightarrow> order
                          | Some rm \<Rightarrow> if passed (snd (checkOrder rm now order)) then order
                                       else order\<lparr>status := Rejected\<rparr>)
       \<and> (\<forall>smb. order_books (fst (submitOrder e now order)) smb =
             (if smb = symbol order \<and> order_books e smb = None
                \<and> (case risk_manager e of None \<Rightarrow> True
                     | Some rm \<Rightarrow> passed (snd (checkOrder rm now order)))
              then Some (new_book smb) else order_books e smb))
       \<and> total_fills (fst (submitOrder e now order)) = total_fills e"
  using assms
  by (auto simp: submitOrder_def Let_def process_order_def getOrCreateOrderBook_def
        matchOrder_def notifyOrder_def reject_def
      split: option.splits prod.splits OrderType.splits)

theorem submitOrder_nothing_to_fill_witness:
  "remaining_qty zero_qty \<le> 0
   \<and> fst (snd (submitOrder listening_engine 0 zero_qty)) = []
   \<and> snd (snd (submitOrder listening_engine 0 zero_qty)) = [OrderEvent zero_qty]
   \<and> order_books (fst (submitOrder listening_engine 0 zero_qty)) ''AAPL''
       = order_books listening_engine ''AAPL''"
proof -
  have h: "remaining_qty zero_qty \<le> 0"
    by (simp add: zero_qty_def mk_order_def remaining_qty_def)
  from submitOrder_nothing_to_fill [OF h, of listening_engine 0] h show ?thesis
    by (simp add: listening_engine_def new_engine_def notifyOrder_def)
qed

section \<open>The limit of a market order\<close>

text \<open>
  C5. A sell order rests at the price 2000000000000, which \<open>addOrder\<close> accepts. The
  limit that \<open>matchOrder\<close> gives a market buy is 1000000000000, so the gate stops at the
  level, and the market buy submitted to the engine gets no fill although the sell order
  rests.
\<close>

theorem market_buy_stopped_by_gate:
  "otype market_buy = Market \<and> side market_buy = Buy
   \<and> ask_levels far_book =
       [(2000000000000, \<lparr>level_price = 2000000000000, total_quantity = 100,
                          orders = [far_ask]\<rparr>)]
   \<and> gate_stops Buy (effective_limit_price market_buy) (snd (hd (ask_levels far_book)))
   \<and> fst (snd (submitOrder (new_engine\<lparr>order_books := [''AAPL'' \<mapsto> far_book]\<rparr>) 0 market_buy))
       = []"
  by (simp add: market_buy_def far_book_def far_ask_def book_eval effective_limit_price_def
        submitOrder_def new_engine_def process_order_def getOrCreateOrderBook_def
        matchOrder_def cancel_def notifyOrder_def)

text \<open>
  In general, for a market order the gate stops at a level exactly when the order buys
  and the level's price is above 1000000000000: a market sell passes the gate at every
  price (its limit 0 switches the gate off), a market buy at every price up to
  1000000000000.
\<close>

theorem market_limit_gate:
  assumes "otype order = Market"
  shows "gate_stops (side order) (effective_limit_price order) level \<longleftrightarrow>
           side order = Buy \<and> level_price level > 1000000000000"
  using assms by (cases "side order") (auto simp: gate_stops_def effective_limit_price_def)

theorem market_limit_gate_witness:
  "otype market_buy = Market
   \<and> \<not> gate_stops (side market_buy) (effective_limit_price market_buy)
         \<lparr>level_price = 151, total_quantity = 200, orders = []\<rparr>"
proof -
  have h: "otype market_buy = Market" by (simp add: market_buy_def mk_order_def)
  from market_limit_gate [OF h, of "\<lparr>level_price = 151, total_quantity = 200, orders = []\<rparr>"] h
  show ?thesis by simp
qed


section \<open>The match primitive and price-time priority\<close>











lemma spec_fills_follow_queue:
  "map (\<lambda>f. (fill_price f, counter_order_id f)) (spec_fills a smb d q queue) =
     take (length (spec_fills a smb d q queue)) (map (\<lambda>(p, x). (p, oid x)) queue)"
  by (induction queue arbitrary: q) (auto simp: mk_fill_def)



















end
